theory Spec2Isabelle
  imports Main
begin

section \<open>JavaScript string primitives\<close>

text \<open>
  A JavaScript string is a sequence of UTF-16 code units, and \<open>length\<close>, \<open>slice\<close>,
  \<open>indexOf\<close> and the regular expressions of the source all count code units. The model
  writes a code unit as a \<open>char\<close>, so it covers the texts whose code units are below 256
  (ASCII and Latin-1), one \<open>char\<close> per code unit.
\<close>

definition newline :: char where
  "newline = CHR 0x0A"

definition backticks :: string where
  "backticks = ''```''"

text \<open>The class \<open>\w\<close> of a regular expression without the unicode flag: \<open>[A-Za-z0-9_]\<close>.\<close>

definition isWordChar :: "char \<Rightarrow> bool" where
  "isWordChar c =
     (let n = (of_char c :: nat)
      in (48 \<le> n \<and> n \<le> 57) \<or> (65 \<le> n \<and> n \<le> 90) \<or> n = 95 \<or> (97 \<le> n \<and> n \<le> 122))"

text \<open>
  The characters \<open>String.prototype.trim\<close> removes, among the code units below 256: TAB, LF,
  VT, FF, CR, SPACE and NO-BREAK SPACE.
\<close>

definition isWhiteSpace :: "char \<Rightarrow> bool" where
  "isWhiteSpace c =
     (let n = (of_char c :: nat)
      in n = 9 \<or> n = 10 \<or> n = 11 \<or> n = 12 \<or> n = 13 \<or> n = 32 \<or> n = 160)"

definition trim :: "string \<Rightarrow> string" where
  "trim s = rev (dropWhile isWhiteSpace (rev (dropWhile isWhiteSpace s)))"

definition startsWith :: "string \<Rightarrow> string \<Rightarrow> bool" where
  "startsWith s p = (take (length p) s = p)"

text \<open>\<open>s.indexOf(p)\<close>: the first position where \<open>p\<close> occurs; \<open>None\<close> is the source's \<open>-1\<close>.\<close>

fun indexOf :: "string \<Rightarrow> string \<Rightarrow> nat option" where
  "indexOf [] p = (if p = [] then Some 0 else None)"
| "indexOf (c # cs) p =
     (if startsWith (c # cs) p then Some 0 else map_option Suc (indexOf cs p))"

text \<open>\<open>s.split(sep)\<close> for a separator of one character; the result is never empty.\<close>

fun split :: "char \<Rightarrow> string \<Rightarrow> string list" where
  "split sep [] = [[]]"
| "split sep (c # cs) =
     (if c = sep then [] # split sep cs
      else (case split sep cs of [] \<Rightarrow> [[c]] | w # ws \<Rightarrow> (c # w) # ws))"

text \<open>\<open>parts.join(sep)\<close>.\<close>

fun join :: "string \<Rightarrow> string list \<Rightarrow> string" where
  "join sep [] = []"
| "join sep [w] = w"
| "join sep (w # ws) = w @ sep @ join sep ws"

section \<open>The code-block extractor (\<open>CodeExtractor\<close>)\<close>

subsection \<open>The opening fence\<close>

text \<open>
  \<open>this.buffer.match(/```(\w+):([^\n]+)\n/)\<close>. At one position the expression can match in
  one way only: after the three backticks the tag is the longest run of word characters
  (a colon is not a word character) and the path runs up to the next newline. The result
  is \<open>(m[0], m[1], m[2])\<close>.
\<close>

definition openFenceAt :: "string \<Rightarrow> (string \<times> string \<times> string) option" where
  "openFenceAt s =
     (if startsWith s backticks then
        let r = drop 3 s;
            tag = takeWhile isWordChar r;
            r1 = dropWhile isWordChar r
        in if tag \<noteq> [] \<and> startsWith r1 '':'' then
             let r2 = drop 1 r1;
                 p = takeWhile (\<lambda>c. c \<noteq> newline) r2;
                 r3 = dropWhile (\<lambda>c. c \<noteq> newline) r2
             in if p \<noteq> [] \<and> startsWith r3 [newline]
                then Some (backticks @ tag @ '':'' @ p @ [newline], tag, p)
                else None
           else None
      else None)"

text \<open>The search of \<open>match\<close>: the leftmost position where the expression matches.\<close>

fun matchOpenFence :: "string \<Rightarrow> (string \<times> string \<times> string) option" where
  "matchOpenFence [] = None"
| "matchOpenFence (c # cs) =
     (case openFenceAt (c # cs) of
        Some m \<Rightarrow> Some m
      | None \<Rightarrow> matchOpenFence cs)"

text \<open>
  The opening fence in words: three backticks, a tag, a colon, a path and a newline,
  where the tag is one or more word characters and the path one or more characters
  other than a newline.
\<close>

definition fenceHeader :: "string \<Rightarrow> string \<Rightarrow> string" where
  "fenceHeader tag path = backticks @ tag @ '':'' @ path @ [newline]"

definition validHeader :: "string \<Rightarrow> string \<Rightarrow> bool" where
  "validHeader tag path =
     (tag \<noteq> [] \<and> list_all isWordChar tag \<and> path \<noteq> [] \<and> newline \<notin> set path)"

subsection \<open>State\<close>

record PendingFile =
  filename :: string
  content :: string
  fullPath :: string

record CodeExtractor =
  buffer :: string
  inBlock :: bool
  ext_filename :: string
  code :: string
  dir :: string

text \<open>
  \<open>path.isAbsolute\<close> and \<open>path.join\<close> belong to the runtime, not to the repository: the
  model takes them as a parameter.
\<close>

record pathModule =
  isAbsolute :: "string \<Rightarrow> bool"
  joinPath :: "string \<Rightarrow> string \<Rightarrow> string"

definition newCodeExtractor :: "string \<Rightarrow> CodeExtractor" where
  "newCodeExtractor d =
     \<lparr>buffer = [], inBlock = False, ext_filename = [], code = [], dir = d\<rparr>"

text \<open>The object pushed on \<open>pendingFiles\<close>, from the extractor's fields at that moment.\<close>

definition pendingFile :: "pathModule \<Rightarrow> CodeExtractor \<Rightarrow> PendingFile" where
  "pendingFile P e =
     \<lparr>filename = ext_filename e,
      content = trim (code e),
      fullPath = (if isAbsolute P (ext_filename e) then ext_filename e
                  else joinPath P (dir e) (ext_filename e))\<rparr>"

subsection \<open>\<open>process\<close> and \<open>flush\<close>\<close>

text \<open>
  The state is the extractor together with the module's global \<open>pendingFiles\<close>.
  \<open>process\<close> makes at most one transition per call.
\<close>

definition process :: "pathModule \<Rightarrow> string \<Rightarrow> CodeExtractor \<times> PendingFile list
    \<Rightarrow> CodeExtractor \<times> PendingFile list" where
  "process P chunk st =
     (let e0 = fst st; pendingFiles = snd st;
          e = e0\<lparr>buffer := buffer e0 @ chunk\<rparr>
      in if \<not> inBlock e then
           (case matchOpenFence (buffer e) of
              Some (m0, m1, m2) \<Rightarrow>
                (e\<lparr>inBlock := True, ext_filename := trim m2, code := [],
                   buffer := (case indexOf (buffer e) m0 of
                                Some i \<Rightarrow> drop (i + length m0) (buffer e)
                              | None \<Rightarrow> drop (length m0 - 1) (buffer e))\<rparr>,
                 pendingFiles)
            | None \<Rightarrow>
                (if length (buffer e) > 100
                 then e\<lparr>buffer := drop (length (buffer e) - 100) (buffer e)\<rparr>
                 else e,
                 pendingFiles))
         else
           (case indexOf (buffer e) backticks of
              Some end \<Rightarrow>
                (let e1 = e\<lparr>code := code e @ take end (buffer e)\<rparr>
                 in (e1\<lparr>buffer := drop (end + 3) (buffer e1), inBlock := False\<rparr>,
                     pendingFiles @ [pendingFile P e1]))
            | None \<Rightarrow>
                (if length (buffer e) > 10
                 then e\<lparr>code := code e @ take (length (buffer e) - 10) (buffer e),
                        buffer := drop (length (buffer e) - 10) (buffer e)\<rparr>
                 else e,
                 pendingFiles)))"

definition flush :: "pathModule \<Rightarrow> CodeExtractor \<times> PendingFile list
    \<Rightarrow> CodeExtractor \<times> PendingFile list" where
  "flush P st =
     (let e = fst st; pendingFiles = snd st;
          pendingFiles' =
            (if inBlock e \<and> code e \<noteq> []
             then pendingFiles @ [pendingFile P (e\<lparr>code := code e @ buffer e\<rparr>)]
             else pendingFiles)
      in (e\<lparr>buffer := [], inBlock := False, code := [], ext_filename := []\<rparr>, pendingFiles'))"

subsection \<open>The streaming loop of \<open>sendMessage\<close>\<close>

text \<open>
  What \<open>agent.sendStream\<close> hands to its consumer: the chunks it yields, then either a
  clean end (\<open>None\<close>) or the error it throws.
\<close>

type_synonym 'e chunkStream = "string list \<times> 'e option"

record 'e SendResult =
  written :: "string list"
  pending :: "PendingFile list"
  thrown :: "'e option"

text \<open>
  The loop \<open>for await (const chunk of ...) { process.stdout.write(chunk); ext.process(chunk); }\<close>:
  the writes to standard output so far, and the extractor with \<open>pendingFiles\<close>.
\<close>

fun streamLoop :: "pathModule \<Rightarrow> string list
    \<Rightarrow> string list \<times> (CodeExtractor \<times> PendingFile list)
    \<Rightarrow> string list \<times> (CodeExtractor \<times> PendingFile list)" where
  "streamLoop P [] w = w"
| "streamLoop P (chunk # rest) w =
     streamLoop P rest (fst w @ [chunk], process P chunk (snd w))"

text \<open>
  \<open>sendMessage\<close> from the prompt label to \<open>console.log("\n")\<close>. The label (colour codes
  and an arrow) is a parameter. Building the first message from the project structure
  happens before, the interactive \<open>processPending\<close> after; neither is modelled.
\<close>

definition sendMessage :: "pathModule \<Rightarrow> string \<Rightarrow> string \<Rightarrow> 'e chunkStream
    \<Rightarrow> PendingFile list \<Rightarrow> 'e SendResult" where
  "sendMessage P label currentDir stream pendingFiles =
     (let w = streamLoop P (fst stream) ([label], (newCodeExtractor currentDir, pendingFiles))
      in case snd stream of
           Some err \<Rightarrow>
             \<lparr>written = fst w, pending = snd (flush P (snd w)), thrown = Some err\<rparr>
         | None \<Rightarrow>
             \<lparr>written = fst w @ [[newline, newline]], pending = snd (flush P (snd w)),
              thrown = None\<rparr>)"

text \<open>The text on the display: the writes, one after the other.\<close>

definition displayText :: "'e SendResult \<Rightarrow> string" where
  "displayText r = concat (written r)"

subsection \<open>The blocks of a response\<close>

text \<open>
  The text after the leftmost opening fence \<open>m0\<close> of \<open>s\<close>, with the expression of \<open>process\<close>:
  \<open>s.slice(s.indexOf(m0) + m0.length)\<close>.
\<close>

definition afterFence :: "string \<Rightarrow> string \<Rightarrow> string" where
  "afterFence s m0 =
     (case indexOf s m0 of
        Some i \<Rightarrow> drop (i + length m0) s
      | None \<Rightarrow> drop (length m0 - 1) s)"

text \<open>
  The blocks of a whole response, read in one pass as the specification describes the
  state machine: scanning (\<open>None\<close>) looks for the leftmost opening fence and goes on,
  inside the block of its path, with the text after it; inside a block (\<open>Some path\<close>) the
  text up to the first three backticks is the content, and scanning goes on after them.
  A block that the response does not close has the rest of the text as content, if
  there is any. Each block is its path and its content, both trimmed.
\<close>

function extractFrom :: "string option \<Rightarrow> string \<Rightarrow> (string \<times> string) list" where
  "extractFrom None t =
     (case matchOpenFence t of
        None \<Rightarrow> []
      | Some (m0, tag, p) \<Rightarrow> extractFrom (Some (trim p)) (afterFence t m0))"
| "extractFrom (Some f) t =
     (case indexOf t backticks of
        None \<Rightarrow> (if t = [] then [] else [(f, trim t)])
      | Some i \<Rightarrow> (f, trim (take i t)) # extractFrom None (drop (i + 3) t))"
  by pat_completeness auto

text \<open>The file of a block, for the directory of the extractor.\<close>

definition blockFile :: "pathModule \<Rightarrow> string \<Rightarrow> string \<times> string \<Rightarrow> PendingFile" where
  "blockFile P d b =
     \<lparr>filename = fst b, content = snd b,
      fullPath = (if isAbsolute P (fst b) then fst b else joinPath P d (fst b))\<rparr>"

text \<open>No opening fence of the text, at any position, is longer than 101 characters.\<close>

fun shortHeaders :: "string \<Rightarrow> bool" where
  "shortHeaders [] = True"
| "shortHeaders (c # cs) =
     ((case openFenceAt (c # cs) of
         None \<Rightarrow> True
       | Some (m0, tag, p) \<Rightarrow> length m0 \<le> 101) \<and> shortHeaders cs)"

text \<open>
  The extractor has nothing left to do with its carry-buffer: while scanning, the buffer
  holds no complete opening fence; inside a block, it holds no closing fence and it is
  not the only place where text of the block is.
\<close>

definition quiescent :: "CodeExtractor \<Rightarrow> bool" where
  "quiescent e =
     (if inBlock e
      then indexOf (buffer e) backticks = None \<and> (buffer e = [] \<or> code e \<noteq> [])
      else matchOpenFence (buffer e) = None)"

text \<open>
  A chunking is fully processed when the extractor, fed the chunks one by one from its
  initial state, is quiescent at the end of the stream.
\<close>

definition fullyProcessed :: "pathModule \<Rightarrow> string \<Rightarrow> string list \<Rightarrow> bool" where
  "fullyProcessed P d chunks =
     quiescent (fst (snd (streamLoop P chunks ([], (newCodeExtractor d, [])))))"

text \<open>
  How the state of the extractor stands for the text \<open>x\<close> received since its last
  transition. While scanning, the buffer is \<open>x\<close> or, once it has been cut, the last 100
  characters of an \<open>x\<close> without opening fence. Inside a block, \<open>x\<close> is the accumulated
  content followed by the buffer, and once content has been accumulated \<open>x\<close> has no
  closing fence and the buffer keeps at least 10 characters.
\<close>

definition tracks :: "CodeExtractor \<Rightarrow> string \<Rightarrow> bool" where
  "tracks e x =
     (if inBlock e
      then x = code e @ buffer e \<and>
           (code e = [] \<or> (indexOf x backticks = None \<and> 10 \<le> length (buffer e)))
      else (\<exists>u. x = u @ buffer e \<and>
                (u = [] \<or> (matchOpenFence x = None \<and> length (buffer e) = 100))))"

text \<open>The mode of the extractor: scanning, or inside the block of a path.\<close>

definition modeOf :: "CodeExtractor \<Rightarrow> string option" where
  "modeOf e = (if inBlock e then Some (ext_filename e) else None)"

section \<open>The agent (\<open>CodingAgent\<close>)\<close>

datatype Role = System | User | Assistant

record Message =
  role :: Role
  msg_content :: string

text \<open>
  \<open>conversationHistory.indexOf(userMsg)\<close> compares object identities, so a message in the
  history is an object: an address and its fields. \<open>freshAddr\<close> is the address of a newly
  created object, different from every object of the history.
\<close>

type_synonym MessageObj = "nat \<times> Message"

record CodingAgent =
  conversationHistory :: "MessageObj list"
  pendingUserMessage :: "MessageObj option"

definition freshAddr :: "MessageObj list \<Rightarrow> nat" where
  "freshAddr h = Suc (fold max (map fst h) 0)"

fun indexOfObj :: "MessageObj list \<Rightarrow> MessageObj \<Rightarrow> nat option" where
  "indexOfObj [] m = None"
| "indexOfObj (x # xs) m =
     (if fst x = fst m then Some 0 else map_option Suc (indexOfObj xs m))"

text \<open>
  \<open>send\<close>. The client's \<open>chat\<close> is a parameter: from the messages it is given, the
  response or the error it throws.
\<close>

definition send :: "(Message list \<Rightarrow> 'e + string) \<Rightarrow> string \<Rightarrow> CodingAgent
    \<Rightarrow> CodingAgent \<times> ('e + string)" where
  "send client_chat userMessage a =
     (let userMsg = (freshAddr (conversationHistory a),
                     \<lparr>role = User, msg_content = userMessage\<rparr>);
          a1 = a\<lparr>conversationHistory := conversationHistory a @ [userMsg]\<rparr>
      in case client_chat (map snd (conversationHistory a1)) of
           Inr response \<Rightarrow>
             (a1\<lparr>conversationHistory := conversationHistory a1 @
                   [(freshAddr (conversationHistory a1),
                     \<lparr>role = Assistant, msg_content = response\<rparr>)]\<rparr>,
              Inr response)
         | Inl err \<Rightarrow>
             (a1\<lparr>conversationHistory := butlast (conversationHistory a1)\<rparr>, Inl err))"

text \<open>
  \<open>sendStream\<close>. The client's \<open>chatStream\<close> is a parameter as well. The result is the agent
  after the \<open>finally\<close> block and the stream the generator hands on.
\<close>

definition sendStream :: "(Message list \<Rightarrow> 'e chunkStream) \<Rightarrow> string \<Rightarrow> CodingAgent
    \<Rightarrow> CodingAgent \<times> 'e chunkStream" where
  "sendStream client_chatStream userMessage a =
     (let userMsg = (freshAddr (conversationHistory a),
                     \<lparr>role = User, msg_content = userMessage\<rparr>);
          a1 = a\<lparr>pendingUserMessage := Some userMsg,
                 conversationHistory := conversationHistory a @ [userMsg]\<rparr>;
          stream = client_chatStream (map snd (conversationHistory a1));
          fullResponse = concat (fst stream);
          success = (snd stream = None);
          a2 = (if success \<and> fullResponse \<noteq> [] then
                  a1\<lparr>conversationHistory := conversationHistory a1 @
                       [(freshAddr (conversationHistory a1),
                         \<lparr>role = Assistant, msg_content = fullResponse\<rparr>)]\<rparr>
                else if \<not> success then
                  (case indexOfObj (conversationHistory a1) userMsg of
                     Some idx \<Rightarrow>
                       a1\<lparr>conversationHistory :=
                            take idx (conversationHistory a1) @
                            drop (Suc idx) (conversationHistory a1)\<rparr>
                   | None \<Rightarrow> a1)
                else a1)
      in (a2\<lparr>pendingUserMessage := None\<rparr>, stream))"

section \<open>The stream decoder (\<open>APIClient.chatStream\<close>)\<close>

datatype streamError = APIError nat string | NoResponseBody | ReadFailed string

text \<open>
  The body of the \<open>try\<close> block, \<open>JSON.parse(data)\<close> followed by
  \<open>parsed.choices?.[0]?.delta?.content\<close>, is a parameter of the model: it throws, or it
  gives the content field, which may be absent.
\<close>

datatype tryResult = Thrown | Content "string option"

text \<open>
  The response of \<open>fetch\<close>: \<open>body\<close> is \<open>None\<close> when there is no reader; otherwise it is the
  text of the fragments the reader delivers (already decoded), and how reading ends:
  \<open>None\<close> for \<open>done\<close>, or the error of a rejected \<open>read\<close>.
\<close>

record Response =
  ok :: bool
  status :: nat
  bodyText :: string
  body :: "(string list \<times> string option) option"

text \<open>
  The loop over the complete lines of one fragment: the contents yielded, and whether the
  generator returned at \<open>[DONE]\<close>.
\<close>

fun forLines :: "(string \<Rightarrow> tryResult) \<Rightarrow> string list \<Rightarrow> string list \<times> bool" where
  "forLines parse [] = ([], False)"
| "forLines parse (line # rest) =
     (if startsWith line ''data: '' then
        (let data = drop 6 line
         in if data = ''[DONE]'' then ([], True)
            else (case parse data of
                    Thrown \<Rightarrow> forLines parse rest
                  | Content None \<Rightarrow> forLines parse rest
                  | Content (Some c) \<Rightarrow>
                      (if c \<noteq> [] then (c # fst (forLines parse rest), snd (forLines parse rest))
                       else forLines parse rest)))
      else forLines parse rest)"

text \<open>The \<open>while (true)\<close> loop over the reader, with the line buffer.\<close>

fun readLoop :: "(string \<Rightarrow> tryResult) \<Rightarrow> string \<Rightarrow> string list \<Rightarrow> string option
    \<Rightarrow> streamError chunkStream" where
  "readLoop parse buf [] ending =
     (case ending of None \<Rightarrow> ([], None) | Some err \<Rightarrow> ([], Some (ReadFailed err)))"
| "readLoop parse buf (v # vs) ending =
     (let lines = split newline (buf @ v);
          buf' = last lines;
          r = forLines parse (butlast lines)
      in if snd r then (fst r, None)
         else (fst r @ fst (readLoop parse buf' vs ending),
               snd (readLoop parse buf' vs ending)))"

definition chatStream :: "(string \<Rightarrow> tryResult) \<Rightarrow> Response \<Rightarrow> streamError chunkStream" where
  "chatStream parse response =
     (if \<not> ok response then ([], Some (APIError (status response) (bodyText response)))
      else (case body response of
              None \<Rightarrow> ([], Some NoResponseBody)
            | Some (fragments, ending) \<Rightarrow> readLoop parse [] fragments ending))"

section \<open>Running a command (\<open>runCommand\<close>)\<close>

record ToolResult =
  success :: bool
  tool_output :: string
  error :: "string option"

text \<open>
  The promise \<open>runCommand\<close> returns settles once: the first \<open>resolve\<close> wins. When \<open>spawn\<close>
  returns, \<open>runCommand\<close> registers its handlers and sets a timer of 30 s. What the child
  process does until that timer fires is a list of events, in the order the event loop
  delivers them; then the callback of the timer runs. Events after the timer find the
  promise settled and are left out. The exit code of \<open>close\<close> is \<open>None\<close> when a signal ended
  the process. \<open>SpawnThrows\<close> stands for an exception in the \<open>try\<close> block, from \<open>spawn\<close> or
  from registering the handlers; the \<open>catch\<close> clause resolves the promise with a failure.
\<close>

datatype 'a promise = Pending | Resolved 'a | Rejected string

datatype procEvent =
    StdoutData string
  | StderrData string
  | Close "int option"
  | ProcError string

datatype spawnResult = SpawnThrows string | Spawned "procEvent list"

record runState =
  stdout :: string
  stderr :: string
  settled :: "ToolResult promise"

definition resolve :: "ToolResult \<Rightarrow> runState \<Rightarrow> runState" where
  "resolve r s = (case settled s of Pending \<Rightarrow> s\<lparr>settled := Resolved r\<rparr> | _ \<Rightarrow> s)"

fun onEvent :: "procEvent \<Rightarrow> runState \<Rightarrow> runState" where
  "onEvent (StdoutData d) s = s\<lparr>stdout := stdout s @ d\<rparr>"
| "onEvent (StderrData d) s = s\<lparr>stderr := stderr s @ d\<rparr>"
| "onEvent (Close exitCode) s =
     resolve \<lparr>success = (exitCode = Some 0),
              tool_output = (if stdout s \<noteq> [] then stdout s else ''(no output)''),
              error = (if stderr s \<noteq> [] then Some (stderr s) else None)\<rparr> s"
| "onEvent (ProcError msg) s =
     resolve \<lparr>success = False, tool_output = [],
              error = Some (''Failed to run command: '' @ msg)\<rparr> s"

text \<open>The callback of \<open>setTimeout\<close>, after \<open>proc.kill()\<close>.\<close>

definition onTimeout :: "runState \<Rightarrow> runState" where
  "onTimeout s =
     resolve \<lparr>success = False, tool_output = stdout s,
              error = Some ''Command timed out (30s)''\<rparr> s"

text \<open>\<open>spawn\<close> is the runtime's: from the command, the arguments and the directory.\<close>

definition runCommand :: "(string \<Rightarrow> string list \<Rightarrow> string \<Rightarrow> spawnResult)
    \<Rightarrow> string \<Rightarrow> string list \<Rightarrow> string \<Rightarrow> ToolResult promise" where
  "runCommand spawn command args workspaceDir =
     (case spawn command args workspaceDir of
        SpawnThrows err \<Rightarrow>
          Resolved \<lparr>success = False, tool_output = [],
                    error = Some (''Failed to run command: '' @ err)\<rparr>
      | Spawned events \<Rightarrow>
          settled (onTimeout
            (fold onEvent events \<lparr>stdout = [], stderr = [], settled = Pending\<rparr>)))"

text \<open>The events that settle nothing: output of the child process.\<close>

definition isData :: "procEvent \<Rightarrow> bool" where
  "isData ev = (case ev of StdoutData d \<Rightarrow> True | StderrData d \<Rightarrow> True | _ \<Rightarrow> False)"

section \<open>Command aliases (\<open>resolveCommand\<close>)\<close>

definition commandAliases :: "(string \<times> string) list" where
  "commandAliases =
     [(''/q'', ''/quit''), (''/e'', ''/exit''), (''/quit'', ''/exit''),
      (''/h'', ''/help''), (''/?'', ''/help''),
      (''/c'', ''/clear''), (''/cls'', ''/clear''),
      (''/hist'', ''/history''),
      (''/cfg'', ''/config''), (''/settings'', ''/config''),
      (''/l'', ''/list''), (''/ls'', ''/list''), (''/dir'', ''/list''),
      (''/s'', ''/save''), (''/w'', ''/save''), (''/write'', ''/save''),
      (''/r'', ''/read''), (''/cat'', ''/read''), (''/show'', ''/read''),
      (''/d'', ''/delete''), (''/del'', ''/delete''), (''/rm'', ''/delete''),
      (''/x'', ''/run''), (''/exec'', ''/run''),
      (''/sh'', ''/shell''), (''/$'', ''/shell''), (''/cmd'', ''/shell'')]"

text \<open>
  \<open>commandAliases[cmd]\<close> reads a property of an object literal, so beside the table's own
  keys it finds what the object inherits from \<open>Object.prototype\<close>. Of the inherited names
  only \<open>constructor\<close> and \<open>__proto__\<close> are in lower case; their values are truthy and
  \<open>join\<close> turns them into the texts below (the first as V8 and JavaScriptCore print a
  native function). \<open>None\<close> is \<open>undefined\<close>.
\<close>

definition aliasProperty :: "string \<Rightarrow> string option" where
  "aliasProperty cmd =
     (case map_of commandAliases cmd of
        Some full \<Rightarrow> Some full
      | None \<Rightarrow>
          (if cmd = ''constructor'' then Some ''function Object() { [native code] }''
           else if cmd = ''__proto__'' then Some ''[object Object]''
           else None))"

text \<open>\<open>toLowerCase\<close> on the code units below 256: A to Z, and the Latin-1 capitals.\<close>

definition toLowerChar :: "char \<Rightarrow> char" where
  "toLowerChar c =
     (let n = (of_char c :: nat)
      in if (65 \<le> n \<and> n \<le> 90) \<or> (192 \<le> n \<and> n \<le> 222 \<and> n \<noteq> 215)
         then char_of (n + 32) else c)"

definition toLowerCase :: "string \<Rightarrow> string" where
  "toLowerCase s = map toLowerChar s"

definition resolveCommand :: "string \<Rightarrow> string" where
  "resolveCommand input =
     (case split (CHR '' '') input of
        [] \<Rightarrow> input
      | p0 # rest \<Rightarrow>
          (case aliasProperty (toLowerCase p0) of
             Some full \<Rightarrow> join '' '' (full # rest)
           | None \<Rightarrow> input))"

text \<open>
  The first token in the words of the specification: the input up to its first white
  space character.
\<close>

definition firstWhitespaceToken :: "string \<Rightarrow> string" where
  "firstWhitespaceToken s = takeWhile (\<lambda>c. \<not> isWhiteSpace c) s"

section \<open>Properties of the extractor: the carry-buffer\<close>

text \<open>
  Claim C6. After a call of \<open>process\<close> that leaves the mode as it was, the carry-buffer
  holds at most 100 characters while scanning and at most 10 characters inside a block.
\<close>

theorem process_buffer_bounded:
  "inBlock (fst (process P chunk (e, pfs))) = inBlock e \<Longrightarrow>
   length (buffer (fst (process P chunk (e, pfs)))) \<le> (if inBlock e then 10 else 100)"
  by (auto simp: process_def Let_def split: option.splits if_splits)

theorem process_buffer_bounded_witness:
  "inBlock (fst (process \<lparr>isAbsolute = (\<lambda>p. startsWith p ''/''), joinPath = (\<lambda>d f. d @ ''/'' @ f)\<rparr>
       ''0123456789abcdef''
       (\<lparr>buffer = ''x = '', inBlock = True, ext_filename = ''a.py'', code = [], dir = ''/w''\<rparr>, [])))
     = inBlock \<lparr>buffer = ''x = '', inBlock = True, ext_filename = ''a.py'', code = [], dir = ''/w''\<rparr>
   \<and> length (buffer (fst (process \<lparr>isAbsolute = (\<lambda>p. startsWith p ''/''), joinPath = (\<lambda>d f. d @ ''/'' @ f)\<rparr>
       ''0123456789abcdef''
       (\<lparr>buffer = ''x = '', inBlock = True, ext_filename = ''a.py'', code = [], dir = ''/w''\<rparr>, []))))
     \<le> (if inBlock \<lparr>buffer = ''x = '', inBlock = True, ext_filename = ''a.py'', code = [], dir = ''/w''\<rparr>
         then 10 else 100)"
proof -
  have h: "inBlock (fst (process \<lparr>isAbsolute = (\<lambda>p. startsWith p ''/''), joinPath = (\<lambda>d f. d @ ''/'' @ f)\<rparr>
       ''0123456789abcdef''
       (\<lparr>buffer = ''x = '', inBlock = True, ext_filename = ''a.py'', code = [], dir = ''/w''\<rparr>, [])))
     = inBlock \<lparr>buffer = ''x = '', inBlock = True, ext_filename = ''a.py'', code = [], dir = ''/w''\<rparr>"
    by (simp add: process_def Let_def startsWith_def backticks_def)
  from h process_buffer_bounded [OF h] show ?thesis by (rule conjI)
qed

section \<open>Properties of the extractor: the opening fence\<close>

lemma startsWith_append: "startsWith (p @ s) p"
  by (simp add: startsWith_def)

lemma startsWith_decompose: "startsWith s p \<Longrightarrow> s = p @ drop (length p) s"
  by (metis append_take_drop_id startsWith_def)

lemma colon_not_word: "\<not> isWordChar CHR '':''"
  by (simp add: isWordChar_def)

lemma openFenceAt_sound:
  assumes "openFenceAt s = Some (m0, tag, p)"
  shows "validHeader tag p \<and> m0 = fenceHeader tag p \<and> (\<exists>post. s = m0 @ post)"
proof -
  let ?r = "drop 3 s"
  let ?r1 = "dropWhile isWordChar ?r"
  let ?r2 = "drop 1 ?r1"
  let ?r3 = "dropWhile (\<lambda>c. c \<noteq> newline) ?r2"
  from assms have b: "startsWith s backticks"
    and t: "tag = takeWhile isWordChar ?r" "tag \<noteq> []"
    and c: "startsWith ?r1 '':''"
    and p: "p = takeWhile (\<lambda>c. c \<noteq> newline) ?r2" "p \<noteq> []"
    and n: "startsWith ?r3 [newline]"
    and m: "m0 = backticks @ tag @ '':'' @ p @ [newline]"
    by (auto simp: openFenceAt_def Let_def split: if_splits)
  have "length backticks = 3" by (simp add: backticks_def)
  then have "s = backticks @ ?r" using startsWith_decompose [OF b] by simp
  moreover have "?r = tag @ ?r1" using t by simp
  moreover have "?r1 = '':'' @ ?r2" using startsWith_decompose [OF c] by simp
  moreover have "?r2 = p @ ?r3" using p by simp
  moreover have "?r3 = [newline] @ drop 1 ?r3" using startsWith_decompose [OF n] by simp
  ultimately have "s = m0 @ drop 1 ?r3" unfolding m by (metis append.assoc)
  then have "\<exists>post. s = m0 @ post" by blast
  moreover have "list_all isWordChar tag"
    unfolding t by (simp add: list_all_iff) (meson set_takeWhileD)
  moreover have "newline \<notin> set p"
    unfolding p using set_takeWhileD [of newline "\<lambda>c. c \<noteq> newline"] by blast
  ultimately show ?thesis using t p m by (simp add: validHeader_def fenceHeader_def)
qed

lemma openFenceAt_complete:
  assumes "validHeader tag p"
  shows "openFenceAt (fenceHeader tag p @ post) = Some (fenceHeader tag p, tag, p)"
proof -
  let ?s = "fenceHeader tag p @ post"
  have w: "\<And>x. x \<in> set tag \<Longrightarrow> isWordChar x"
    using assms by (simp add: validHeader_def list_all_iff)
  have q: "\<And>x. x \<in> set p \<Longrightarrow> x \<noteq> newline"
    using assms by (auto simp: validHeader_def)
  have r: "drop 3 ?s = tag @ CHR '':'' # p @ newline # post"
    by (simp add: fenceHeader_def backticks_def)
  have t: "takeWhile isWordChar (tag @ CHR '':'' # p @ newline # post) = tag"
    using w by (simp add: takeWhile_append2 colon_not_word)
  have r1: "dropWhile isWordChar (tag @ CHR '':'' # p @ newline # post) = CHR '':'' # p @ newline # post"
    using w by (simp add: dropWhile_append2 colon_not_word)
  have tp: "takeWhile (\<lambda>c. c \<noteq> newline) (p @ newline # post) = p"
    using q by (simp add: takeWhile_append2)
  have r3: "dropWhile (\<lambda>c. c \<noteq> newline) (p @ newline # post) = newline # post"
    using q by (simp add: dropWhile_append2)
  have "startsWith ?s backticks"
    by (simp add: fenceHeader_def startsWith_def)
  then show ?thesis
    using assms unfolding openFenceAt_def r Let_def t r1
    by (simp add: tp r3 startsWith_def validHeader_def fenceHeader_def)
qed

lemma openFenceAt_Nil: "openFenceAt [] = None"
  by (simp add: openFenceAt_def startsWith_def backticks_def)

text \<open>The search finds a fence when one starts at some position.\<close>

lemma matchOpenFence_finds:
  "openFenceAt r \<noteq> None \<Longrightarrow> matchOpenFence (pre @ r) \<noteq> None"
proof (induction pre)
  case Nil
  then show ?case by (cases r) (auto simp: openFenceAt_Nil split: option.splits)
next
  case (Cons c cs)
  then show ?case by (auto split: option.splits)
qed

text \<open>What the search finds is the leftmost fence.\<close>

lemma matchOpenFence_leftmost:
  "matchOpenFence s = Some m \<Longrightarrow>
   \<exists>pre r. s = pre @ r \<and> openFenceAt r = Some m \<and>
     (\<forall>pre' r'. s = pre' @ r' \<and> length pre' < length pre \<longrightarrow> openFenceAt r' = None)"
proof (induction s)
  case Nil
  then show ?case by simp
next
  case (Cons c cs)
  show ?case
  proof (cases "openFenceAt (c # cs)")
    case (Some m')
    with Cons.prems have "openFenceAt (c # cs) = Some m" by simp
    then have "c # cs = [] @ (c # cs) \<and> openFenceAt (c # cs) = Some m \<and>
       (\<forall>pre' r'. c # cs = pre' @ r' \<and> length pre' < length ([]::string) \<longrightarrow> openFenceAt r' = None)"
      by simp
    then show ?thesis by blast
  next
    case None
    with Cons.prems have "matchOpenFence cs = Some m" by simp
    from Cons.IH [OF this] obtain pre r where
      s: "cs = pre @ r" and m: "openFenceAt r = Some m"
      and l: "\<forall>pre' r'. cs = pre' @ r' \<and> length pre' < length pre \<longrightarrow> openFenceAt r' = None"
      by blast
    have "\<forall>pre' r'. c # cs = pre' @ r' \<and> length pre' < length (c # pre) \<longrightarrow> openFenceAt r' = None"
    proof (intro allI impI)
      fix pre' r'
      assume a: "c # cs = pre' @ r' \<and> length pre' < length (c # pre)"
      show "openFenceAt r' = None"
      proof (cases pre')
        case Nil
        with a None show ?thesis by simp
      next
        case (Cons d ds)
        with a have "cs = ds @ r'" "length ds < length pre" by simp_all
        with l show ?thesis by blast
      qed
    qed
    with s m have "c # cs = (c # pre) @ r \<and> openFenceAt r = Some m \<and>
      (\<forall>pre' r'. c # cs = pre' @ r' \<and> length pre' < length (c # pre) \<longrightarrow> openFenceAt r' = None)"
      by simp
    then show ?thesis by blast
  qed
qed

lemma indexOf_first:
  "(\<forall>pre' r'. pre @ m @ post = pre' @ r' \<and> length pre' < length pre \<longrightarrow> \<not> startsWith r' m) \<Longrightarrow>
   indexOf (pre @ m @ post) m = Some (length pre)"
proof (induction pre)
  case Nil
  show ?case
  proof (cases "m @ post")
    case Nil
    then show ?thesis by simp
  next
    case (Cons a as)
    have "startsWith (m @ post) m" by (rule startsWith_append)
    then have "indexOf (a # as) m = Some 0" unfolding Cons by simp
    then show ?thesis unfolding Cons [symmetric] by simp
  qed
next
  case (Cons c cs)
  have "\<not> startsWith ((c # cs) @ m @ post) m"
    using Cons.prems by (metis append_Nil length_greater_0_conv list.distinct(1) list.size(3))
  moreover have "indexOf (cs @ m @ post) m = Some (length cs)"
  proof (rule Cons.IH, intro allI impI)
    fix pre' r'
    assume "cs @ m @ post = pre' @ r' \<and> length pre' < length cs"
    then have "(c # cs) @ m @ post = (c # pre') @ r' \<and> length (c # pre') < length (c # cs)"
      by simp
    with Cons.prems show "\<not> startsWith r' m" by blast
  qed
  ultimately show ?case by simp
qed

text \<open>The transition of \<open>process\<close> at the leftmost fence of the buffer.\<close>

lemma process_opens_block:
  assumes scan: "\<not> inBlock e"
    and found: "matchOpenFence (buffer e @ chunk) = Some (m0, tag, p)"
  shows "\<exists>pre post. buffer e @ chunk = pre @ m0 @ post \<and>
           m0 = fenceHeader tag p \<and> validHeader tag p \<and>
           (\<forall>pre' r'. buffer e @ chunk = pre' @ r' \<and> length pre' < length pre \<longrightarrow>
               openFenceAt r' = None) \<and>
           process P chunk (e, pfs) =
             (e\<lparr>buffer := post, inBlock := True, ext_filename := trim p, code := []\<rparr>, pfs)"
proof -
  let ?s = "buffer e @ chunk"
  from matchOpenFence_leftmost [OF found] obtain pre r where
    s: "?s = pre @ r" and m: "openFenceAt r = Some (m0, tag, p)"
    and l: "\<forall>pre' r'. ?s = pre' @ r' \<and> length pre' < length pre \<longrightarrow> openFenceAt r' = None"
    by blast
  from openFenceAt_sound [OF m] obtain post where v: "validHeader tag p"
    and h: "m0 = fenceHeader tag p" and r: "r = m0 @ post" by blast
  let ?post = "post"
  have dec: "?s = pre @ m0 @ ?post" using s r by simp
  have "\<forall>pre' r'. pre @ m0 @ ?post = pre' @ r' \<and> length pre' < length pre \<longrightarrow> \<not> startsWith r' m0"
  proof (intro allI impI notI)
    fix pre' r'
    assume a: "pre @ m0 @ ?post = pre' @ r' \<and> length pre' < length pre"
    assume "startsWith r' m0"
    then have "r' = fenceHeader tag p @ drop (length m0) r'"
      using startsWith_decompose h by blast
    then have "openFenceAt r' \<noteq> None"
      using openFenceAt_complete [OF v, of "drop (length m0) r'"] by (metis option.distinct(1))
    moreover have "openFenceAt r' = None" using a l dec by metis
    ultimately show False by simp
  qed
  then have "indexOf (pre @ m0 @ ?post) m0 = Some (length pre)" by (rule indexOf_first)
  then have i: "indexOf ?s m0 = Some (length pre)" using dec by simp
  have "drop (length pre + length m0) ?s = ?post"
    unfolding dec by (simp add: add.commute)
  then have "process P chunk (e, pfs) =
      (e\<lparr>buffer := ?post, inBlock := True, ext_filename := trim p, code := []\<rparr>, pfs)"
    using scan found i by (simp add: process_def Let_def)
  with dec h v l show ?thesis by blast
qed

lemma process_stays_scanning:
  assumes "\<not> inBlock e" and "matchOpenFence (buffer e @ chunk) = None"
  shows "\<not> inBlock (fst (process P chunk (e, pfs)))"
    and "snd (process P chunk (e, pfs)) = pfs"
    and "\<exists>k. buffer (fst (process P chunk (e, pfs))) = drop k (buffer e @ chunk)"
proof -
  show "\<not> inBlock (fst (process P chunk (e, pfs)))"
    using assms by (simp add: process_def Let_def)
  show "snd (process P chunk (e, pfs)) = pfs"
    using assms by (simp add: process_def Let_def)
  show "\<exists>k. buffer (fst (process P chunk (e, pfs))) = drop k (buffer e @ chunk)"
  proof (cases "length (buffer e @ chunk) > 100")
    case True
    with assms have "buffer (fst (process P chunk (e, pfs))) =
        drop (length (buffer e @ chunk) - 100) (buffer e @ chunk)"
      by (simp add: process_def Let_def)
    then show ?thesis by blast
  next
    case False
    with assms have "buffer (fst (process P chunk (e, pfs))) = drop 0 (buffer e @ chunk)"
      by (simp add: process_def Let_def)
    then show ?thesis by blast
  qed
qed

lemma matchOpenFence_declarative:
  "matchOpenFence s \<noteq> None \<longleftrightarrow>
     (\<exists>pre tag path post. s = pre @ fenceHeader tag path @ post \<and> validHeader tag path)"
proof
  assume "matchOpenFence s \<noteq> None"
  then obtain m0 tag p where f: "matchOpenFence s = Some (m0, tag, p)" by (cases "matchOpenFence s") auto
  from matchOpenFence_leftmost [OF f] obtain pre r where
    "s = pre @ r" "openFenceAt r = Some (m0, tag, p)" by blast
  with openFenceAt_sound [of r m0 tag p]
  have "\<exists>post. s = pre @ fenceHeader tag p @ post \<and> validHeader tag p" by auto
  then show "\<exists>pre tag path post. s = pre @ fenceHeader tag path @ post \<and> validHeader tag path"
    by blast
next
  assume "\<exists>pre tag path post. s = pre @ fenceHeader tag path @ post \<and> validHeader tag path"
  then obtain pre tag path post where
    "s = pre @ fenceHeader tag path @ post" "validHeader tag path" by blast
  then show "matchOpenFence s \<noteq> None"
    using matchOpenFence_finds [of "fenceHeader tag path @ post" pre] openFenceAt_complete
    by simp
qed

text \<open>
  Claim C4, as the code has it. While scanning, \<open>process\<close> moves to the block mode exactly
  when the buffer with the new chunk contains three backticks, a tag of one or more
  word characters (letters, digits, underscore), a colon, a path of one or more
  characters other than a newline, and a newline. At the leftmost such place the path,
  trimmed, becomes the file name, the buffer becomes what follows the newline, and the
  content starts empty; the tag is not stored.
\<close>

theorem opening_fence_recognition:
  assumes "\<not> inBlock e"
  shows "(inBlock (fst (process P chunk (e, pfs))) \<longleftrightarrow>
           (\<exists>pre tag path post.
              buffer e @ chunk = pre @ fenceHeader tag path @ post \<and> validHeader tag path)) \<and>
         (\<forall>pre tag path post.
            buffer e @ chunk = pre @ fenceHeader tag path @ post \<and> validHeader tag path \<and>
            (\<forall>pre' tag' path' post'.
               buffer e @ chunk = pre' @ fenceHeader tag' path' @ post' \<and> validHeader tag' path'
               \<longrightarrow> length pre \<le> length pre')
            \<longrightarrow> process P chunk (e, pfs) =
                  (e\<lparr>buffer := post, inBlock := True, ext_filename := trim path, code := []\<rparr>,
                   pfs))"
proof (intro conjI allI impI)
  show "inBlock (fst (process P chunk (e, pfs))) \<longleftrightarrow>
           (\<exists>pre tag path post.
              buffer e @ chunk = pre @ fenceHeader tag path @ post \<and> validHeader tag path)"
  proof (cases "matchOpenFence (buffer e @ chunk)")
    case None
    then show ?thesis
      using process_stays_scanning(1) [OF assms None] matchOpenFence_declarative [of "buffer e @ chunk"]
      by simp
  next
    case (Some m)
    obtain m0 tag p where "m = (m0, tag, p)" by (cases m) auto
    with Some process_opens_block [OF assms, of chunk m0 tag p P pfs]
    have "inBlock (fst (process P chunk (e, pfs)))" by auto
    then show ?thesis
      using Some matchOpenFence_declarative [of "buffer e @ chunk"] by simp
  qed
next
  fix pre tag path post
  let ?s = "buffer e @ chunk"
  assume a: "?s = pre @ fenceHeader tag path @ post \<and> validHeader tag path \<and>
            (\<forall>pre' tag' path' post'.
               ?s = pre' @ fenceHeader tag' path' @ post' \<and> validHeader tag' path'
               \<longrightarrow> length pre \<le> length pre')"
  then have dec: "?s = pre @ fenceHeader tag path @ post" and v: "validHeader tag path"
    and least: "\<And>pre' tag' path' post'.
       ?s = pre' @ fenceHeader tag' path' @ post' \<Longrightarrow> validHeader tag' path' \<Longrightarrow>
       length pre \<le> length pre'"
    by blast+
  have here: "openFenceAt (fenceHeader tag path @ post) = Some (fenceHeader tag path, tag, path)"
    using v by (rule openFenceAt_complete)
  then have "matchOpenFence ?s \<noteq> None"
    unfolding dec by (intro matchOpenFence_finds) simp
  then obtain m0 t p where f: "matchOpenFence ?s = Some (m0, t, p)"
    by (cases "matchOpenFence ?s") auto
  from process_opens_block [OF assms f, of P pfs] obtain pre0 post0 where
    dec0: "?s = pre0 @ m0 @ post0" and h0: "m0 = fenceHeader t p" and v0: "validHeader t p"
    and l0: "\<forall>pre' r'. ?s = pre' @ r' \<and> length pre' < length pre0 \<longrightarrow> openFenceAt r' = None"
    and res: "process P chunk (e, pfs) =
             (e\<lparr>buffer := post0, inBlock := True, ext_filename := trim p, code := []\<rparr>, pfs)"
    by blast
  have "length pre \<le> length pre0" using least [of pre0 t p post0] dec0 h0 v0 by simp
  moreover have "\<not> length pre < length pre0" using l0 dec here by auto
  ultimately have "length pre = length pre0" by simp
  with dec dec0 have "pre = pre0" and rest: "fenceHeader tag path @ post = m0 @ post0"
    by (metis append_eq_append_conv)+
  have "openFenceAt (m0 @ post0) = Some (m0, t, p)"
    unfolding h0 using v0 by (rule openFenceAt_complete)
  with here rest have "m0 = fenceHeader tag path" "t = tag" "p = path" by simp_all
  with rest res show "process P chunk (e, pfs) =
      (e\<lparr>buffer := post, inBlock := True, ext_filename := trim path, code := []\<rparr>, pfs)"
    by simp
qed

theorem opening_fence_recognition_witness:
  "\<not> inBlock (newCodeExtractor ''/w'')
   \<and> buffer (newCodeExtractor ''/w'') @ ''```py: a.py \<newline>print''
       = [] @ fenceHeader ''py'' '' a.py '' @ ''print''
   \<and> validHeader ''py'' '' a.py ''
   \<and> process \<lparr>isAbsolute = (\<lambda>p. startsWith p ''/''), joinPath = (\<lambda>d f. d @ ''/'' @ f)\<rparr>
        ''```py: a.py \<newline>print'' (newCodeExtractor ''/w'', [])
       = (\<lparr>buffer = ''print'', inBlock = True, ext_filename = ''a.py'', code = [], dir = ''/w''\<rparr>, [])"
proof -
  let ?P = "\<lparr>isAbsolute = (\<lambda>p. startsWith p ''/''), joinPath = (\<lambda>d f. d @ ''/'' @ f)\<rparr>"
  let ?c = "''```py: a.py \<newline>print''"
  have s: "\<not> inBlock (newCodeExtractor ''/w'')"
    by (simp add: newCodeExtractor_def)
  have d: "buffer (newCodeExtractor ''/w'') @ ?c = [] @ fenceHeader ''py'' '' a.py '' @ ''print''"
    by (simp add: newCodeExtractor_def fenceHeader_def backticks_def newline_def)
  have v: "validHeader ''py'' '' a.py ''"
    by (simp add: validHeader_def isWordChar_def newline_def)
  from opening_fence_recognition [OF s, of ?P ?c "[]"]
  have "\<forall>pre tag path post.
          buffer (newCodeExtractor ''/w'') @ ?c = pre @ fenceHeader tag path @ post \<and>
          validHeader tag path \<and>
          (\<forall>pre' tag' path' post'.
             buffer (newCodeExtractor ''/w'') @ ?c = pre' @ fenceHeader tag' path' @ post' \<and>
             validHeader tag' path' \<longrightarrow> length pre \<le> length pre')
          \<longrightarrow> process ?P ?c (newCodeExtractor ''/w'', []) =
                (newCodeExtractor ''/w''\<lparr>buffer := post, inBlock := True,
                   ext_filename := trim path, code := []\<rparr>, [])"
    by (rule conjunct2)
  from this [rule_format, of "[]" "''py''" "'' a.py ''" "''print''"] d v
  have "process ?P ?c (newCodeExtractor ''/w'', []) =
          (newCodeExtractor ''/w''\<lparr>buffer := ''print'', inBlock := True,
             ext_filename := trim '' a.py '', code := []\<rparr>, [])"
    by simp
  then have "process ?P ?c (newCodeExtractor ''/w'', []) =
      (\<lparr>buffer = ''print'', inBlock = True, ext_filename = ''a.py'', code = [], dir = ''/w''\<rparr>, [])"
    by (simp add: newCodeExtractor_def trim_def isWhiteSpace_def)
  with s d v show ?thesis by blast
qed

text \<open>
  Claim C4 as stated fails: a tag of characters that are not white space but not all
  word characters, as in \<open>c++\<close>, opens no block.
\<close>

theorem opening_fence_counterexample:
  "''```c++:main.cpp\<newline>'' = [] @ backticks @ ''c++'' @ '':'' @ ''main.cpp'' @ [newline] @ []
   \<and> ''c++'' \<noteq> [] \<and> list_all (\<lambda>c. \<not> isWhiteSpace c) ''c++''
   \<and> ''main.cpp'' \<noteq> [] \<and> newline \<notin> set ''main.cpp''
   \<and> \<not> inBlock (fst (process \<lparr>isAbsolute = (\<lambda>p. startsWith p ''/''), joinPath = (\<lambda>d f. d @ ''/'' @ f)\<rparr>
          ''```c++:main.cpp\<newline>'' (newCodeExtractor ''/w'', [])))"
  by (simp add: process_def Let_def newCodeExtractor_def openFenceAt_def startsWith_def
      backticks_def newline_def isWordChar_def isWhiteSpace_def)

section \<open>Properties of the extractor: the end of the stream\<close>

text \<open>
  What \<open>flush\<close> does in the block mode: the test on the accumulated content comes before
  the carry-buffer is appended to it.
\<close>

lemma flush_in_block:
  assumes "inBlock e"
  shows "flush P (e, pfs) =
           (newCodeExtractor (dir e),
            if code e \<noteq> [] then
              pfs @ [\<lparr>filename = ext_filename e,
                      content = trim (code e @ buffer e),
                      fullPath = (if isAbsolute P (ext_filename e) then ext_filename e
                                  else joinPath P (dir e) (ext_filename e))\<rparr>]
            else pfs)"
  using assms by (simp add: flush_def Let_def pendingFile_def newCodeExtractor_def)

text \<open>
  Claim C2. When the stream ends inside a block, \<open>flush\<close> appends the carry-buffer to the
  accumulated content and, whenever any content was accumulated, emits one file with
  that content, trimmed, and the captured path. The code fails this where the text of
  the block is still in the carry-buffer: the response \<open>```py:a.py\<close>, newline, \<open>x=1\<close>,
  delivered as the header and then the line, ends inside the block with \<open>x=1\<close> in the
  carry-buffer, and nothing is emitted. The same block followed by a closing fence is
  emitted from the carry-buffer by \<open>process\<close>. A longer block is emitted by \<open>flush\<close> when it
  arrives after its header and dropped when it arrives in one chunk with the header.
\<close>

theorem flush_drops_buffered_block:
  "process \<lparr>isAbsolute = (\<lambda>p. startsWith p ''/''), joinPath = (\<lambda>d f. d @ ''/'' @ f)\<rparr> ''x=1''
     (process \<lparr>isAbsolute = (\<lambda>p. startsWith p ''/''), joinPath = (\<lambda>d f. d @ ''/'' @ f)\<rparr>
        ''```py:a.py\<newline>'' (newCodeExtractor ''/w'', []))
     = (\<lparr>buffer = ''x=1'', inBlock = True, ext_filename = ''a.py'', code = [], dir = ''/w''\<rparr>, [])
   \<and> pending (sendMessage \<lparr>isAbsolute = (\<lambda>p. startsWith p ''/''), joinPath = (\<lambda>d f. d @ ''/'' @ f)\<rparr>
        ''Cody: '' ''/w'' ([''```py:a.py\<newline>'', ''x=1''], None :: string option) [])
     = []
   \<and> pending (sendMessage \<lparr>isAbsolute = (\<lambda>p. startsWith p ''/''), joinPath = (\<lambda>d f. d @ ''/'' @ f)\<rparr>
        ''Cody: '' ''/w'' ([''```py:a.py\<newline>'', ''x=1```''], None :: string option) [])
     = [\<lparr>filename = ''a.py'', content = ''x=1'', fullPath = ''/w/a.py''\<rparr>]
   \<and> pending (sendMessage \<lparr>isAbsolute = (\<lambda>p. startsWith p ''/''), joinPath = (\<lambda>d f. d @ ''/'' @ f)\<rparr>
        ''Cody: '' ''/w'' ([''```py:a.py\<newline>'', ''x = 1; y = 2; z = 3''], None :: string option) [])
     = [\<lparr>filename = ''a.py'', content = ''x = 1; y = 2; z = 3'', fullPath = ''/w/a.py''\<rparr>]
   \<and> pending (sendMessage \<lparr>isAbsolute = (\<lambda>p. startsWith p ''/''), joinPath = (\<lambda>d f. d @ ''/'' @ f)\<rparr>
        ''Cody: '' ''/w'' ([''```py:a.py\<newline>x = 1; y = 2; z = 3''], None :: string option) [])
     = []"
  by code_simp

section \<open>Properties of the streaming loop\<close>

lemma streamLoop_written: "fst (streamLoop P chunks w) = fst w @ chunks"
  by (induction chunks arbitrary: w) simp_all

lemma displayText_clean:
  "displayText (sendMessage P label d (chunks, None) pfs) =
     label @ concat chunks @ [newline, newline]"
  by (simp add: displayText_def sendMessage_def Let_def streamLoop_written)

text \<open>A text without an opening fence has none in any part of it.\<close>

lemma matchOpenFence_substring:
  assumes "matchOpenFence (a @ b @ c) = None"
  shows "matchOpenFence b = None"
proof (rule ccontr)
  assume "matchOpenFence b \<noteq> None"
  then obtain pre tag path post where
    "b = pre @ fenceHeader tag path @ post" "validHeader tag path"
    using matchOpenFence_declarative by blast
  then have "a @ b @ c = (a @ pre) @ fenceHeader tag path @ (post @ c) \<and> validHeader tag path"
    by simp
  then have "matchOpenFence (a @ b @ c) \<noteq> None"
    using matchOpenFence_declarative by blast
  with assms show False by simp
qed

subsection \<open>Searching a text that goes on\<close>

lemma startsWith_length: "startsWith s m \<Longrightarrow> length m \<le> length s"
proof -
  assume "startsWith s m"
  then have "take (length m) s = m" by (simp add: startsWith_def)
  then have "length (take (length m) s) = length m" by (rule arg_cong)
  then show ?thesis by simp
qed

lemma startsWith_extend:
  "length m \<le> length s \<Longrightarrow> startsWith (s @ r) m = startsWith s m"
  by (simp add: startsWith_def)

lemma indexOf_Some:
  "indexOf s m = Some i \<Longrightarrow> i + length m \<le> length s \<and> startsWith (drop i s) m"
proof (induction s arbitrary: i)
  case Nil
  then show ?case by (simp add: startsWith_def split: if_splits)
next
  case (Cons c cs)
  show ?case
  proof (cases "startsWith (c # cs) m")
    case True
    with Cons.prems have "i = 0" by simp
    with True startsWith_length [OF True] show ?thesis by simp
  next
    case False
    with Cons.prems obtain j where j: "indexOf cs m = Some j" "i = Suc j" by auto
    from Cons.IH [OF j(1)] j(2) show ?thesis by simp
  qed
qed

lemma indexOf_extend: "indexOf s m = Some i \<Longrightarrow> indexOf (s @ r) m = Some i"
proof (induction s arbitrary: i)
  case Nil
  then show ?case by (cases r) (simp_all add: startsWith_def split: if_splits)
next
  case (Cons c cs)
  show ?case
  proof (cases "startsWith (c # cs) m")
    case True
    then have "startsWith ((c # cs) @ r) m"
      using startsWith_extend [OF startsWith_length [OF True]] by blast
    with Cons.prems True show ?thesis by simp
  next
    case False
    with Cons.prems obtain j where j: "indexOf cs m = Some j" "i = Suc j" by auto
    from indexOf_Some [OF j(1)] have "length m \<le> length (c # cs)" by simp
    then have "\<not> startsWith ((c # cs) @ r) m" using False startsWith_extend by blast
    with Cons.IH [OF j(1)] j(2) show ?thesis by simp
  qed
qed

lemma indexOf_skip:
  "(\<And>j. j < length u \<Longrightarrow> \<not> startsWith (drop j (u @ s)) m) \<Longrightarrow>
   indexOf (u @ s) m = map_option (\<lambda>i. length u + i) (indexOf s m)"
proof (induction u)
  case Nil
  then show ?case by (simp add: option.map_ident)
next
  case (Cons c cs)
  have "\<not> startsWith ((c # cs) @ s) m" using Cons.prems [of 0] by simp
  moreover have "indexOf (cs @ s) m = map_option (\<lambda>i. length cs + i) (indexOf s m)"
  proof (rule Cons.IH)
    fix j assume "j < length cs"
    then show "\<not> startsWith (drop j (cs @ s)) m" using Cons.prems [of "Suc j"] by simp
  qed
  ultimately show ?case by (simp add: option.map_comp comp_def)
qed

lemma indexOf_None:
  "indexOf s m = None \<Longrightarrow> j \<le> length s \<Longrightarrow> \<not> startsWith (drop j s) m"
proof (induction s arbitrary: j)
  case Nil
  then show ?case by (simp add: startsWith_def split: if_splits)
next
  case (Cons c cs)
  then show ?case by (cases j) (auto split: if_splits)
qed

lemma in_set_dropWhile: "x \<in> set xs \<Longrightarrow> \<not> P x \<Longrightarrow> x \<in> set (dropWhile P xs)"
  by (induction xs) auto

lemma newline_not_word: "\<not> isWordChar newline"
  by (simp add: isWordChar_def newline_def)

lemma length_backticks: "length backticks = 3"
  by (simp add: backticks_def)

lemma startsWith_backticks: "startsWith s backticks = (take 3 s = backticks)"
  by (simp only: startsWith_def length_backticks)

lemma startsWith_backticks_extend:
  assumes "newline \<in> set s"
  shows "startsWith (s @ r) backticks = startsWith s backticks"
proof (cases "3 \<le> length s")
  case True
  then show ?thesis by (simp add: startsWith_extend length_backticks)
next
  case False
  have "\<not> startsWith s backticks"
    using False startsWith_length [of s backticks] by (auto simp: length_backticks)
  moreover have "\<not> startsWith (s @ r) backticks"
  proof
    assume "startsWith (s @ r) backticks"
    then have "take 3 (s @ r) = backticks" by (simp only: startsWith_backticks)
    then have "take (length s) (take 3 (s @ r)) = take (length s) backticks" by simp
    then have "s = take (length s) backticks" using False by (simp add: min_def)
    then have "set s \<subseteq> set backticks" by (metis set_take_subset)
    with assms show False by (auto simp: backticks_def newline_def)
  qed
  ultimately show ?thesis by simp
qed

lemma startsWith_single_extend: "xs \<noteq> [] \<Longrightarrow> startsWith (xs @ r) [c] = startsWith xs [c]"
  by (cases xs) (simp_all add: startsWith_def)

text \<open>Whether a fence starts a text is decided by the text up to its first newline.\<close>

lemma openFenceAt_extend:
  assumes n: "newline \<in> set s"
  shows "openFenceAt (s @ r) = openFenceAt s"
proof (cases "startsWith s backticks")
  case False
  then show ?thesis using startsWith_backticks_extend [OF n] by (simp add: openFenceAt_def)
next
  case True
  let ?r0 = "drop 3 s"
  let ?r1 = "dropWhile isWordChar ?r0"
  let ?r2 = "drop 1 ?r1"
  let ?r3 = "dropWhile (\<lambda>c. c \<noteq> newline) ?r2"
  have len: "3 \<le> length s" using startsWith_length [OF True] by (simp add: length_backticks)
  have b: "startsWith (s @ r) backticks" using True startsWith_backticks_extend [OF n] by simp
  have "take 3 s = backticks" using True by (simp only: startsWith_backticks)
  then have "newline \<notin> set (take 3 s)" by (simp add: backticks_def newline_def)
  moreover have "s = take 3 s @ ?r0" by simp
  ultimately have n0: "newline \<in> set ?r0" using n by (metis Un_iff set_append)
  have d0: "drop 3 (s @ r) = ?r0 @ r" using len by simp
  have t: "takeWhile isWordChar (?r0 @ r) = takeWhile isWordChar ?r0"
    using n0 newline_not_word by (rule takeWhile_append1)
  have d1: "dropWhile isWordChar (?r0 @ r) = ?r1 @ r"
    using n0 newline_not_word by (rule dropWhile_append1)
  have n1: "newline \<in> set ?r1" using n0 newline_not_word by (rule in_set_dropWhile)
  then have ne1: "?r1 \<noteq> []" by (metis empty_iff list.set(1))
  then have c: "startsWith (?r1 @ r) '':'' = startsWith ?r1 '':''"
    by (rule startsWith_single_extend)
  show ?thesis
  proof (cases "takeWhile isWordChar ?r0 \<noteq> [] \<and> startsWith ?r1 '':''")
    case False
    then have cond: "(takeWhile isWordChar ?r0 \<noteq> [] \<and> startsWith ?r1 '':'') = False" by simp
    show ?thesis
      by (simp only: openFenceAt_def Let_def d0 t d1 c b True cond if_True if_False)
  next
    case colon: True
    then obtain r2 where r1: "?r1 = CHR '':'' # r2"
      using ne1 by (cases ?r1) (simp_all add: startsWith_def)
    have "newline \<in> set (CHR '':'' # r2)" using n1 unfolding r1 .
    then have "newline \<in> set r2" by (simp add: newline_def)
    moreover have "?r2 = r2" unfolding r1 by simp
    ultimately have n2: "newline \<in> set ?r2" by simp
    have d2: "drop 1 (?r1 @ r) = ?r2 @ r" using ne1 by (cases ?r1) simp_all
    have tp: "takeWhile (\<lambda>c. c \<noteq> newline) (?r2 @ r) = takeWhile (\<lambda>c. c \<noteq> newline) ?r2"
      using n2 by (intro takeWhile_append1 [of newline]) simp_all
    have d3: "dropWhile (\<lambda>c. c \<noteq> newline) (?r2 @ r) = ?r3 @ r"
      using n2 by (intro dropWhile_append1 [of newline]) simp_all
    have "newline \<in> set ?r3" using n2 by (intro in_set_dropWhile) simp_all
    then have "?r3 \<noteq> []" by (metis empty_iff list.set(1))
    then have e: "startsWith (?r3 @ r) [newline] = startsWith ?r3 [newline]"
      by (rule startsWith_single_extend)
    show ?thesis
      by (simp only: openFenceAt_def Let_def d0 t d1 c d2 tp d3 e b True)
  qed
qed

lemma fenceHeader_newline: "newline \<in> set (fenceHeader tag p)"
  by (simp add: fenceHeader_def)

lemma openFenceAt_newline: "openFenceAt s = Some m \<Longrightarrow> newline \<in> set s"
proof -
  assume a: "openFenceAt s = Some m"
  obtain m0 tag p where m: "m = (m0, tag, p)" by (cases m) auto
  from openFenceAt_sound [OF a [unfolded m]] obtain post where
    "m0 = fenceHeader tag p" "s = m0 @ post" by blast
  then show ?thesis using fenceHeader_newline [of tag p] by (metis Un_iff set_append)
qed

lemma matchOpenFence_newline: "matchOpenFence s = Some m \<Longrightarrow> newline \<in> set s"
proof (induction s)
  case Nil
  then show ?case by simp
next
  case (Cons c cs)
  then show ?case
    by (cases "openFenceAt (c # cs)") (auto dest: openFenceAt_newline)
qed

text \<open>The leftmost fence of a text stays the leftmost fence when the text goes on.\<close>

lemma matchOpenFence_extend: "matchOpenFence s = Some m \<Longrightarrow> matchOpenFence (s @ r) = Some m"
proof (induction s)
  case Nil
  then show ?case by simp
next
  case (Cons c cs)
  have n: "newline \<in> set (c # cs)" using Cons.prems by (rule matchOpenFence_newline)
  have e: "openFenceAt ((c # cs) @ r) = openFenceAt (c # cs)" using n by (rule openFenceAt_extend)
  show ?case
  proof (cases "openFenceAt (c # cs)")
    case None
    with Cons.prems have "matchOpenFence cs = Some m" by simp
    then have "matchOpenFence (cs @ r) = Some m" by (rule Cons.IH)
    with None e show ?thesis by simp
  next
    case (Some m')
    with Cons.prems e show ?thesis by simp
  qed
qed

lemma matchOpenFence_skip:
  "(\<And>j. j < length u \<Longrightarrow> openFenceAt (drop j (u @ s)) = None) \<Longrightarrow>
   matchOpenFence (u @ s) = matchOpenFence s"
proof (induction u)
  case Nil
  then show ?case by simp
next
  case (Cons c cs)
  have "openFenceAt ((c # cs) @ s) = None" using Cons.prems [of 0] by simp
  moreover have "matchOpenFence (cs @ s) = matchOpenFence s"
  proof (rule Cons.IH)
    fix j assume "j < length cs"
    then show "openFenceAt (drop j (cs @ s)) = None" using Cons.prems [of "Suc j"] by simp
  qed
  ultimately show ?case by simp
qed

text \<open>The leftmost fence is in the text, so \<open>indexOf\<close> finds it, and text follows it.\<close>

lemma matchOpenFence_indexOf:
  assumes "matchOpenFence s = Some (m0, tag, p)"
  shows "\<exists>i. indexOf s m0 = Some i \<and> i + length m0 \<le> length s \<and> 0 < length m0 \<and>
             afterFence s m0 = drop (i + length m0) s"
proof -
  from matchOpenFence_leftmost [OF assms] obtain pre r where
    s: "s = pre @ r" and m: "openFenceAt r = Some (m0, tag, p)" by blast
  from openFenceAt_sound [OF m] obtain post where
    h: "m0 = fenceHeader tag p" and r: "r = m0 @ post" by blast
  have "startsWith (drop (length pre) s) m0" unfolding s r by (simp add: startsWith_def)
  then have "indexOf s m0 \<noteq> None" using indexOf_None [of s m0 "length pre"] s by auto
  then obtain i where i: "indexOf s m0 = Some i" by auto
  moreover have "0 < length m0" unfolding h by (simp add: fenceHeader_def)
  ultimately show ?thesis using indexOf_Some [OF i] by (simp add: afterFence_def)
qed

lemma afterFence_shorter:
  assumes "matchOpenFence s = Some (m0, tag, p)"
  shows "length (afterFence s m0) < length s"
proof -
  from matchOpenFence_indexOf [OF assms] obtain i where
    l: "i + length m0 \<le> length s" "0 < length m0"
    and a: "afterFence s m0 = drop (i + length m0) s"
    by blast
  have "length (afterFence s m0) = length s - (i + length m0)" unfolding a by simp
  with l show ?thesis by linarith
qed

lemma afterFence_extend:
  assumes "matchOpenFence s = Some (m0, tag, p)"
  shows "afterFence (s @ r) m0 = afterFence s m0 @ r"
proof -
  from matchOpenFence_indexOf [OF assms] obtain i where
    i: "indexOf s m0 = Some i" and l: "i + length m0 \<le> length s"
    and a: "afterFence s m0 = drop (i + length m0) s" by blast
  have "indexOf (s @ r) m0 = Some i" using i by (rule indexOf_extend)
  then show ?thesis using l a by (simp add: afterFence_def)
qed

lemma afterFence_skip:
  assumes "matchOpenFence s = Some (m0, tag, p)"
    and "\<And>j. j < length u \<Longrightarrow> \<not> startsWith (drop j (u @ s)) m0"
  shows "afterFence (u @ s) m0 = afterFence s m0"
proof -
  from matchOpenFence_indexOf [OF assms(1)] obtain i where
    i: "indexOf s m0 = Some i" and a: "afterFence s m0 = drop (i + length m0) s" by blast
  have "indexOf (u @ s) m0 = Some (length u + i)"
    using indexOf_skip [of u s m0] assms(2) i by simp
  then show ?thesis using a by (simp add: afterFence_def add.assoc)
qed

termination extractFrom
proof (relation "measure (\<lambda>(mode, t). length t)")
  show "wf (measure (\<lambda>(mode, t). length t))" by simp
next
  fix t x2 m0 y tag p
  assume "matchOpenFence t = Some x2" "(m0, y) = x2" "(tag, p) = y"
  then have "matchOpenFence t = Some (m0, tag, p)" by simp
  then show "((Some (trim p), afterFence t m0), (None, t)) \<in> measure (\<lambda>(mode, t). length t)"
    by (simp add: afterFence_shorter)
next
  fix f t i
  assume "indexOf t backticks = Some i"
  from indexOf_Some [OF this] have "i + 3 \<le> length t" by (simp add: length_backticks)
  then show "((None, drop (i + 3) t), (Some f, t)) \<in> measure (\<lambda>(mode, t). length t)" by simp
qed

declare extractFrom.simps [simp del]

lemma shortHeaders_drop:
  "shortHeaders t \<Longrightarrow> openFenceAt (drop i t) = Some (m0, tag, p) \<Longrightarrow> length m0 \<le> 101"
proof (induction t arbitrary: i)
  case Nil
  then show ?case by (simp add: openFenceAt_Nil)
next
  case (Cons c cs)
  then show ?case by (cases i) auto
qed

lemma shortHeaders_suffix: "shortHeaders (a @ b) \<Longrightarrow> shortHeaders b"
  by (induction a) simp_all

subsection \<open>The extractor and the text since its last transition\<close>

text \<open>
  While scanning, no fence starts in the part of the text that the buffer has lost, as
  long as no fence is longer than 101 characters.
\<close>

lemma tracks_scanning_lost:
  assumes x: "x = u @ b" and u: "u = [] \<or> (matchOpenFence x = None \<and> length b = 100)"
    and sh: "shortHeaders (x @ c @ rest)" and j: "j < length u"
  shows "openFenceAt (drop j (u @ b @ c)) = None"
proof (rule ccontr)
  assume "openFenceAt (drop j (u @ b @ c)) \<noteq> None"
  then obtain h tag p where o: "openFenceAt (drop j (x @ c)) = Some (h, tag, p)"
    using x by (cases "openFenceAt (drop j (u @ b @ c))") auto
  from u j have none: "matchOpenFence x = None" and b: "length b = 100" by auto
  have jx: "j \<le> length x" using j x by simp
  have o2: "openFenceAt (drop j (x @ c) @ rest) = Some (h, tag, p)"
    using openFenceAt_extend [OF openFenceAt_newline [OF o]] o by simp
  have e1: "drop j (x @ c) @ rest = drop j (x @ c @ rest)" using jx by simp
  have "length h \<le> 101" using o2 [unfolded e1] by (rule shortHeaders_drop [OF sh])
  then have fit: "length h \<le> length (drop j x)" using j x b by simp
  from openFenceAt_sound [OF o] obtain post where
    v: "validHeader tag p" and h: "h = fenceHeader tag p" and d: "drop j (x @ c) = h @ post"
    by blast
  have "drop j x @ c = h @ post" using d jx by simp
  then have "take (length h) (drop j x @ c) = h" by simp
  then have "take (length h) (drop j x) = h" using fit by simp
  then have "drop j x = h @ drop (length h) (drop j x)"
    by (metis append_take_drop_id)
  then have "openFenceAt (drop j x) \<noteq> None"
    using openFenceAt_complete [OF v, of "drop (length h) (drop j x)"] h
    by (metis option.distinct(1))
  then have "matchOpenFence (take j x @ drop j x) \<noteq> None" by (rule matchOpenFence_finds)
  with none show False by simp
qed

lemma tracks_scanning_match:
  assumes x: "x = u @ b" and u: "u = [] \<or> (matchOpenFence x = None \<and> length b = 100)"
    and sh: "shortHeaders (x @ c @ rest)"
  shows "matchOpenFence (x @ c) = matchOpenFence (b @ c)"
proof -
  have "matchOpenFence (u @ (b @ c)) = matchOpenFence (b @ c)"
    using tracks_scanning_lost [OF x u sh] by (intro matchOpenFence_skip) simp
  then show ?thesis using x by simp
qed

lemma tracks_scanning_after:
  assumes x: "x = u @ b" and u: "u = [] \<or> (matchOpenFence x = None \<and> length b = 100)"
    and sh: "shortHeaders (x @ c @ rest)"
    and m: "matchOpenFence (b @ c) = Some (m0, tag, p)"
  shows "afterFence (x @ c @ rest) m0 = afterFence (b @ c) m0 @ rest"
proof -
  from matchOpenFence_leftmost [OF m] obtain pre r where
    "openFenceAt r = Some (m0, tag, p)" by blast
  from openFenceAt_sound [OF this] have v: "validHeader tag p" and h: "m0 = fenceHeader tag p"
    by simp_all
  have no: "\<not> startsWith (drop j (u @ (b @ c))) m0" if "j < length u" for j
  proof
    assume s: "startsWith (drop j (u @ (b @ c))) m0"
    have "openFenceAt (m0 @ drop (length m0) (drop j (u @ (b @ c)))) = Some (m0, tag, p)"
      unfolding h using v by (rule openFenceAt_complete)
    then have "openFenceAt (drop j (u @ (b @ c))) = Some (m0, tag, p)"
      using startsWith_decompose [OF s] by simp
    with tracks_scanning_lost [OF x u sh that] show False by simp
  qed
  have "afterFence (u @ (b @ c)) m0 = afterFence (b @ c) m0"
    using m no by (rule afterFence_skip)
  moreover have "matchOpenFence (x @ c) = Some (m0, tag, p)"
    using tracks_scanning_match [OF x u sh] m by simp
  ultimately show ?thesis
    using afterFence_extend [of "x @ c" m0 tag p rest] x by simp
qed

text \<open>
  Inside a block, no closing fence starts in the content accumulated so far, whatever
  text follows.
\<close>

lemma tracks_block_lost:
  assumes x: "x = k @ b" and k: "k = [] \<or> (indexOf x backticks = None \<and> 10 \<le> length b)"
    and j: "j < length k"
  shows "\<not> startsWith (drop j (k @ b @ y)) backticks"
proof
  assume s: "startsWith (drop j (k @ b @ y)) backticks"
  from k j have none: "indexOf x backticks = None" and b: "10 \<le> length b" by auto
  have jx: "j \<le> length x" using j x by simp
  have "drop j (k @ b @ y) = drop j x @ y" using x jx by simp
  moreover have "length backticks \<le> length (drop j x)"
    using j x b by (simp add: length_backticks)
  ultimately have "startsWith (drop j x) backticks"
    using s startsWith_extend by metis
  with indexOf_None [OF none jx] show False by simp
qed

lemma tracks_block_indexOf:
  assumes x: "x = k @ b" and k: "k = [] \<or> (indexOf x backticks = None \<and> 10 \<le> length b)"
  shows "indexOf (x @ y) backticks = map_option (\<lambda>i. length k + i) (indexOf (b @ y) backticks)"
proof -
  have "indexOf (k @ (b @ y)) backticks =
        map_option (\<lambda>i. length k + i) (indexOf (b @ y) backticks)"
    using tracks_block_lost [OF x k] by (intro indexOf_skip) simp
  then show ?thesis using x by simp
qed

lemma pendingFile_blockFile:
  "pendingFile P e = blockFile P (dir e) (ext_filename e, trim (code e))"
  by (simp add: pendingFile_def blockFile_def)

text \<open>One call of \<open>process\<close>, read on the text since the last transition.\<close>

lemma process_tracks:
  assumes t: "tracks e x" and sh: "shortHeaders (x @ c @ rest)"
  shows "\<exists>x' em. tracks (fst (process P c (e, pfs))) x' \<and>
           dir (fst (process P c (e, pfs))) = dir e \<and>
           snd (process P c (e, pfs)) = pfs @ map (blockFile P (dir e)) em \<and>
           extractFrom (modeOf e) (x @ c @ rest) =
             em @ extractFrom (modeOf (fst (process P c (e, pfs)))) (x' @ rest) \<and>
           shortHeaders (x' @ rest)"
proof (cases "inBlock e")
  case scanning: False
  let ?b = "buffer e"
  from t scanning obtain u where x: "x = u @ ?b"
    and u: "u = [] \<or> (matchOpenFence x = None \<and> length ?b = 100)"
    by (auto simp: tracks_def)
  have mx: "matchOpenFence (x @ c) = matchOpenFence (?b @ c)"
    using x u sh by (rule tracks_scanning_match)
  show ?thesis
  proof (cases "matchOpenFence (?b @ c)")
    case None
    let ?e' = "fst (process P c (e, pfs))"
    have e': "?e' = (if length (?b @ c) > 100
                     then e\<lparr>buffer := drop (length (?b @ c) - 100) (?b @ c)\<rparr>
                     else e\<lparr>buffer := ?b @ c\<rparr>)"
      and p': "snd (process P c (e, pfs)) = pfs"
      using scanning None by (simp_all add: process_def Let_def)
    have "tracks ?e' (x @ c)"
    proof (cases "length (?b @ c) > 100")
      case True
      have "x @ c = (u @ take (length (?b @ c) - 100) (?b @ c)) @
                    drop (length (?b @ c) - 100) (?b @ c)"
        using x by (metis append.assoc append_take_drop_id)
      moreover have "matchOpenFence (x @ c) = None" using mx None by simp
      moreover have "length (drop (length (?b @ c) - 100) (?b @ c)) = 100" using True by simp
      ultimately show ?thesis
        unfolding tracks_def e' using True scanning by (simp del: append_assoc drop_append; blast)
    next
      case False
      have "u = [] \<or> (matchOpenFence (x @ c) = None \<and> length (?b @ c) = 100)"
      proof (cases "u = []")
        case True
        then show ?thesis by simp
      next
        case ne: False
        with u have "matchOpenFence x = None" "length ?b = 100" by simp_all
        moreover from this False have "c = []" by simp
        ultimately show ?thesis by simp
      qed
      moreover have "x @ c = u @ (?b @ c)" using x by simp
      ultimately show ?thesis
        unfolding tracks_def e' using False scanning by (simp del: append_assoc; blast)
    qed
    moreover have "dir ?e' = dir e" by (simp add: e')
    moreover have "modeOf ?e' = modeOf e" using scanning by (simp add: e' modeOf_def)
    ultimately have "tracks ?e' (x @ c) \<and> dir ?e' = dir e \<and>
           snd (process P c (e, pfs)) = pfs @ map (blockFile P (dir e)) [] \<and>
           extractFrom (modeOf e) (x @ c @ rest) = [] @ extractFrom (modeOf ?e') ((x @ c) @ rest) \<and>
           shortHeaders ((x @ c) @ rest)"
      using p' sh by simp
    then show ?thesis by blast
  next
    case (Some m)
    obtain m0 tag p where m: "m = (m0, tag, p)" by (cases m) auto
    with Some have f: "matchOpenFence (?b @ c) = Some (m0, tag, p)" by simp
    let ?e' = "fst (process P c (e, pfs))"
    let ?x' = "afterFence (?b @ c) m0"
    have e': "?e' = e\<lparr>inBlock := True, ext_filename := trim p, code := [], buffer := ?x'\<rparr>"
      and p': "snd (process P c (e, pfs)) = pfs"
      using scanning f by (simp_all add: process_def Let_def afterFence_def split: option.splits)
    have "tracks ?e' ?x'" by (simp add: tracks_def e')
    moreover have "dir ?e' = dir e" by (simp add: e')
    moreover have mode: "modeOf e = None" "modeOf ?e' = Some (trim p)"
      using scanning by (simp_all add: e' modeOf_def)
    moreover have full: "matchOpenFence (x @ c @ rest) = Some (m0, tag, p)"
      using matchOpenFence_extend [of "x @ c" "(m0, tag, p)" rest] mx f by simp
    moreover have after: "afterFence (x @ c @ rest) m0 = ?x' @ rest"
      using x u sh f by (rule tracks_scanning_after)
    moreover have "shortHeaders (?x' @ rest)"
    proof -
      from matchOpenFence_indexOf [OF full] obtain i where
        "afterFence (x @ c @ rest) m0 = drop (i + length m0) (x @ c @ rest)" by blast
      then have "x @ c @ rest = take (i + length m0) (x @ c @ rest) @ (?x' @ rest)"
        using after by (metis append_take_drop_id)
      then show ?thesis using sh shortHeaders_suffix by metis
    qed
    moreover have "extractFrom None (x @ c @ rest) = extractFrom (Some (trim p)) (?x' @ rest)"
      by (subst extractFrom.simps(1)) (simp add: full after)
    ultimately have "tracks ?e' ?x' \<and> dir ?e' = dir e \<and>
           snd (process P c (e, pfs)) = pfs @ map (blockFile P (dir e)) [] \<and>
           extractFrom (modeOf e) (x @ c @ rest) = [] @ extractFrom (modeOf ?e') (?x' @ rest) \<and>
           shortHeaders (?x' @ rest)"
      using p' by simp
    then show ?thesis by blast
  qed
next
  case block: True
  let ?b = "buffer e"
  let ?k = "code e"
  from t block have x: "x = ?k @ ?b"
    and k: "?k = [] \<or> (indexOf x backticks = None \<and> 10 \<le> length ?b)"
    by (auto simp: tracks_def)
  have ix: "indexOf (x @ y) backticks = map_option (\<lambda>i. length ?k + i) (indexOf (?b @ y) backticks)"
    for y using x k by (rule tracks_block_indexOf)
  show ?thesis
  proof (cases "indexOf (?b @ c) backticks")
    case None
    let ?e' = "fst (process P c (e, pfs))"
    let ?n = "length (?b @ c)"
    have e': "?e' = (if ?n > 10
                     then e\<lparr>code := ?k @ take (?n - 10) (?b @ c), buffer := drop (?n - 10) (?b @ c)\<rparr>
                     else e\<lparr>buffer := ?b @ c\<rparr>)"
      and p': "snd (process P c (e, pfs)) = pfs"
      using block None by (simp_all add: process_def Let_def)
    have none: "indexOf (x @ c) backticks = None" using ix [of c] None by simp
    have "tracks ?e' (x @ c)"
    proof (cases "?n > 10")
      case True
      have "x @ c = (?k @ take (?n - 10) (?b @ c)) @ drop (?n - 10) (?b @ c)"
        using x by (metis append.assoc append_take_drop_id)
      moreover have "10 \<le> length (drop (?n - 10) (?b @ c))" using True by simp
      ultimately show ?thesis
        unfolding tracks_def e' using True block none by (simp del: append_assoc drop_append take_append)
    next
      case False
      have "?k = [] \<or> (indexOf (x @ c) backticks = None \<and> 10 \<le> length (?b @ c))"
        using k none by auto
      then show ?thesis
        unfolding tracks_def e' using False block x by simp
    qed
    moreover have "dir ?e' = dir e" by (simp add: e')
    moreover have "modeOf ?e' = modeOf e" using block by (simp add: e' modeOf_def)
    ultimately have "tracks ?e' (x @ c) \<and> dir ?e' = dir e \<and>
           snd (process P c (e, pfs)) = pfs @ map (blockFile P (dir e)) [] \<and>
           extractFrom (modeOf e) (x @ c @ rest) = [] @ extractFrom (modeOf ?e') ((x @ c) @ rest) \<and>
           shortHeaders ((x @ c) @ rest)"
      using p' sh by simp
    then show ?thesis by blast
  next
    case (Some i)
    let ?e' = "fst (process P c (e, pfs))"
    let ?x' = "drop (i + 3) (?b @ c)"
    let ?content = "trim (?k @ take i (?b @ c))"
    have e': "?e' = e\<lparr>code := ?k @ take i (?b @ c), buffer := ?x', inBlock := False\<rparr>"
      and p': "snd (process P c (e, pfs)) =
                 pfs @ [pendingFile P (e\<lparr>buffer := ?b @ c, code := ?k @ take i (?b @ c)\<rparr>)]"
      using block Some by (simp_all add: process_def Let_def)
    have il: "i + 3 \<le> length (?b @ c)"
      using indexOf_Some [OF Some] by (simp add: length_backticks)
    have "tracks ?e' ?x'" by (simp add: tracks_def e')
    moreover have "dir ?e' = dir e" by (simp add: e')
    moreover have mode: "modeOf e = Some (ext_filename e)" "modeOf ?e' = None"
      using block by (simp_all add: e' modeOf_def)
    moreover have emit: "snd (process P c (e, pfs)) =
        pfs @ map (blockFile P (dir e)) [(ext_filename e, ?content)]"
      unfolding p' by (simp add: pendingFile_blockFile)
    moreover have "extractFrom (Some (ext_filename e)) (x @ c @ rest) =
        [(ext_filename e, ?content)] @ extractFrom None (?x' @ rest)"
    proof -
      have "indexOf (?b @ c @ rest) backticks = Some i"
        using indexOf_extend [OF Some, of rest] by simp
      then have full: "indexOf (x @ c @ rest) backticks = Some (length ?k + i)"
        using ix [of "c @ rest"] by simp
      have "take (length ?k + i) (x @ c @ rest) = ?k @ take i (?b @ c)"
        using x il by simp
      moreover have "drop (length ?k + i + 3) (x @ c @ rest) = ?x' @ rest"
        using x il by (simp add: add.assoc)
      ultimately show ?thesis using full by (subst extractFrom.simps(2)) simp
    qed
    moreover have "shortHeaders (?x' @ rest)"
    proof -
      have "x @ c @ rest = (?k @ take (i + 3) (?b @ c)) @ (?x' @ rest)"
        using x by (metis append.assoc append_take_drop_id)
      then show ?thesis using sh shortHeaders_suffix by metis
    qed
    ultimately have "tracks ?e' ?x' \<and> dir ?e' = dir e \<and>
           snd (process P c (e, pfs)) = pfs @ map (blockFile P (dir e)) [(ext_filename e, ?content)] \<and>
           extractFrom (modeOf e) (x @ c @ rest) =
             [(ext_filename e, ?content)] @ extractFrom (modeOf ?e') (?x' @ rest) \<and>
           shortHeaders (?x' @ rest)"
      by simp
    then show ?thesis by blast
  qed
qed

lemma process_extractor_independent:
  "fst (process P c (e, pfs)) = fst (process P c (e, pfs'))"
  by (simp add: process_def Let_def split: option.splits prod.splits)

lemma streamLoop_extractor_independent:
  "fst (snd (streamLoop P chunks (out, (e, pfs)))) = fst (snd (streamLoop P chunks (out', (e, pfs'))))"
proof (induction chunks arbitrary: e out out' pfs pfs')
  case Nil
  then show ?case by simp
next
  case (Cons c cs)
  have "streamLoop P (c # cs) (out, (e, pfs)) =
        streamLoop P cs (out @ [c], (fst (process P c (e, pfs)), snd (process P c (e, pfs))))"
    by simp
  moreover have "streamLoop P (c # cs) (out', (e, pfs')) =
        streamLoop P cs (out' @ [c], (fst (process P c (e, pfs)), snd (process P c (e, pfs'))))"
    using process_extractor_independent [of P c e pfs pfs'] by simp
  ultimately show ?case using Cons.IH by metis
qed

text \<open>At the end of the stream, a quiescent extractor has emitted the blocks of the text.\<close>

lemma flush_tracks:
  assumes t: "tracks e x" and q: "quiescent e"
  shows "snd (flush P (e, pfs)) = pfs @ map (blockFile P (dir e)) (extractFrom (modeOf e) x)"
proof (cases "inBlock e")
  case False
  from t False obtain u where x: "x = u @ buffer e"
    and u: "u = [] \<or> (matchOpenFence x = None \<and> length (buffer e) = 100)"
    by (auto simp: tracks_def)
  from q False have "matchOpenFence (buffer e) = None" by (simp add: quiescent_def)
  with x u have "matchOpenFence x = None" by auto
  then have "extractFrom None x = []" by (subst extractFrom.simps(1)) simp
  then show ?thesis using False by (simp add: flush_def Let_def modeOf_def)
next
  case True
  from t True have x: "x = code e @ buffer e"
    and k: "code e = [] \<or> (indexOf x backticks = None \<and> 10 \<le> length (buffer e))"
    by (auto simp: tracks_def)
  from q True have b: "indexOf (buffer e) backticks = None"
    and c: "buffer e = [] \<or> code e \<noteq> []" by (simp_all add: quiescent_def)
  show ?thesis
  proof (cases "code e = []")
    case empty: True
    with c x have "x = []" by simp
    then have "extractFrom (Some (ext_filename e)) x = []"
      by (subst extractFrom.simps(2)) (simp add: backticks_def)
    then show ?thesis using True empty by (simp add: flush_def Let_def modeOf_def)
  next
    case content: False
    with k have "indexOf x backticks = None" by simp
    moreover have "x \<noteq> []" using x content by simp
    ultimately have "extractFrom (Some (ext_filename e)) x = [(ext_filename e, trim x)]"
      by (subst extractFrom.simps(2)) simp
    then show ?thesis
      using True content x
      by (simp add: flush_def Let_def modeOf_def pendingFile_blockFile)
  qed
qed

lemma streamLoop_tracks:
  assumes "tracks e x" and "shortHeaders (x @ concat chunks)"
    and "quiescent (fst (snd (streamLoop P chunks (out, (e, pfs)))))"
  shows "snd (flush P (snd (streamLoop P chunks (out, (e, pfs))))) =
           pfs @ map (blockFile P (dir e)) (extractFrom (modeOf e) (x @ concat chunks))"
  using assms
proof (induction chunks arbitrary: e x out pfs)
  case Nil
  then show ?case using flush_tracks [of e x P pfs] by simp
next
  case (Cons c cs)
  let ?e' = "fst (process P c (e, pfs))"
  let ?pfs' = "snd (process P c (e, pfs))"
  have sh: "shortHeaders (x @ c @ concat cs)" using Cons.prems(2) by simp
  from process_tracks [OF Cons.prems(1) sh, of P pfs] obtain x' em where
    t': "tracks ?e' x'" and d': "dir ?e' = dir e"
    and p': "?pfs' = pfs @ map (blockFile P (dir e)) em"
    and r: "extractFrom (modeOf e) (x @ c @ concat cs) = em @ extractFrom (modeOf ?e') (x' @ concat cs)"
    and sh': "shortHeaders (x' @ concat cs)" by blast
  have loop: "streamLoop P (c # cs) (out, (e, pfs)) = streamLoop P cs (out @ [c], (?e', ?pfs'))"
    by simp
  have "quiescent (fst (snd (streamLoop P cs (out @ [c], (?e', ?pfs')))))"
    using Cons.prems(3) unfolding loop .
  from Cons.IH [OF t' sh' this]
  have "snd (flush P (snd (streamLoop P cs (out @ [c], (?e', ?pfs'))))) =
          ?pfs' @ map (blockFile P (dir ?e')) (extractFrom (modeOf ?e') (x' @ concat cs))" .
  then show ?case unfolding loop using d' p' r by simp
qed

lemma fence_free_shortHeaders: "matchOpenFence t = None \<Longrightarrow> shortHeaders t"
proof (induction t)
  case Nil
  then show ?case by simp
next
  case (Cons c cs)
  then show ?case by (cases "openFenceAt (c # cs)") simp_all
qed

text \<open>A response without opening fence is fully processed, however it is cut.\<close>

lemma fence_free_quiescent:
  assumes "\<not> inBlock e" and "matchOpenFence (u @ buffer e @ concat chunks) = None"
  shows "quiescent (fst (snd (streamLoop P chunks (out, (e, pfs)))))"
  using assms
proof (induction chunks arbitrary: e u out)
  case Nil
  have "matchOpenFence (buffer e) = None"
    using Nil.prems(2) matchOpenFence_substring [of u "buffer e" "[]"] by simp
  then show ?case using Nil.prems(1) by (simp add: quiescent_def)
next
  case (Cons c cs)
  let ?st = "process P c (e, pfs)"
  have "u @ buffer e @ concat (c # cs) = u @ (buffer e @ c) @ concat cs" by simp
  with Cons.prems(2) have none: "matchOpenFence (buffer e @ c) = None"
    using matchOpenFence_substring by metis
  from process_stays_scanning [OF Cons.prems(1) none, of P pfs] obtain k where
    scan: "\<not> inBlock (fst ?st)" and keep: "snd ?st = pfs"
    and buf: "buffer (fst ?st) = drop k (buffer e @ c)" by blast
  have eq: "(u @ take k (buffer e @ c)) @ buffer (fst ?st) @ concat cs =
            u @ buffer e @ concat (c # cs)"
    unfolding buf by (metis append.assoc append_take_drop_id concat.simps(2))
  have "matchOpenFence ((u @ take k (buffer e @ c)) @ buffer (fst ?st) @ concat cs) = None"
    unfolding eq by (rule Cons.prems(2))
  from Cons.IH [OF scan this, of "out @ [c]"]
  have "quiescent (fst (snd (streamLoop P cs (out @ [c], (fst ?st, pfs)))))" .
  moreover have "(fst ?st, pfs) = ?st" using keep by (simp add: prod_eq_iff)
  ultimately show ?case by simp
qed

lemma fence_free_fullyProcessed:
  assumes "matchOpenFence (concat chunks) = None"
  shows "shortHeaders (concat chunks) \<and> fullyProcessed P d chunks"
proof
  show "shortHeaders (concat chunks)" using assms by (rule fence_free_shortHeaders)
  have "\<not> inBlock (newCodeExtractor d)" by (simp add: newCodeExtractor_def)
  moreover have "matchOpenFence ([] @ buffer (newCodeExtractor d) @ concat chunks) = None"
    using assms by (simp add: newCodeExtractor_def)
  ultimately show "fullyProcessed P d chunks"
    unfolding fullyProcessed_def by (rule fence_free_quiescent)
qed

text \<open>
  Claim C1, as far as the code goes. Every chunk is written to the display as it
  arrives, so the display text is the same for all chunkings of a response. When no
  opening fence of the response is longer than 101 characters, every chunking that the
  extractor has fully processed when the stream ends emits the same files: the blocks
  of the response, in their order. Every chunking of a response without opening fence
  is of that kind.
\<close>

theorem chunk_invariance_processed:
  assumes "concat chunks = concat chunks'"
  shows "displayText (sendMessage P label d (chunks, None) pfs) =
         displayText (sendMessage P label d (chunks', None) pfs) \<and>
         (shortHeaders (concat chunks) \<and> fullyProcessed P d chunks \<and> fullyProcessed P d chunks' \<longrightarrow>
            pending (sendMessage P label d (chunks, None) pfs) =
              pfs @ map (blockFile P d) (extractFrom None (concat chunks)) \<and>
            pending (sendMessage P label d (chunks', None) pfs) =
              pending (sendMessage P label d (chunks, None) pfs)) \<and>
         (matchOpenFence (concat chunks) = None \<longrightarrow>
            shortHeaders (concat chunks) \<and> fullyProcessed P d chunks \<and> fullyProcessed P d chunks')"
proof (intro conjI impI)
  show "displayText (sendMessage P label d (chunks, None) pfs) =
        displayText (sendMessage P label d (chunks', None) pfs)"
    using assms by (simp add: displayText_clean)
next
  have files: "pending (sendMessage P label d (cs, None) pfs) =
                 pfs @ map (blockFile P d) (extractFrom None (concat cs))"
    if sh: "shortHeaders (concat cs)" and fp: "fullyProcessed P d cs" for cs
  proof -
    let ?e = "newCodeExtractor d"
    have t: "tracks ?e []" by (simp add: tracks_def newCodeExtractor_def)
    have q: "quiescent (fst (snd (streamLoop P cs ([label], (?e, pfs)))))"
      using fp streamLoop_extractor_independent [of P cs "[label]" ?e pfs "[]" "[]"]
      by (simp add: fullyProcessed_def)
    have "snd (flush P (snd (streamLoop P cs ([label], (?e, pfs))))) =
            pfs @ map (blockFile P (dir ?e)) (extractFrom (modeOf ?e) ([] @ concat cs))"
      using t _ q by (rule streamLoop_tracks) (simp add: sh)
    then show ?thesis
      by (simp add: sendMessage_def Let_def newCodeExtractor_def modeOf_def)
  qed
  assume a: "shortHeaders (concat chunks) \<and> fullyProcessed P d chunks \<and> fullyProcessed P d chunks'"
  then show first: "pending (sendMessage P label d (chunks, None) pfs) =
              pfs @ map (blockFile P d) (extractFrom None (concat chunks))"
    by (intro files) simp_all
  from a assms have "pending (sendMessage P label d (chunks', None) pfs) =
              pfs @ map (blockFile P d) (extractFrom None (concat chunks'))"
    by (intro files) simp_all
  with first assms show "pending (sendMessage P label d (chunks', None) pfs) =
              pending (sendMessage P label d (chunks, None) pfs)"
    by metis
next
  assume f: "matchOpenFence (concat chunks) = None"
  then show "shortHeaders (concat chunks)" and "fullyProcessed P d chunks"
    using fence_free_fullyProcessed by blast+
  from f assms have "matchOpenFence (concat chunks') = None" by simp
  then show "fullyProcessed P d chunks'" using fence_free_fullyProcessed by blast
qed

theorem chunk_invariance_processed_witness:
  "concat [''Sure, here:\<newline>```py'', ''thon:app.py\<newline>print(1)\<newline>'', ''```\<newline>Done.'']
     = concat [''Sure, here:\<newline>``'', ''`python:app'', ''.py\<newline>print(1)\<newline>`'', ''``\<newline>Done.'']
   \<and> shortHeaders (concat [''Sure, here:\<newline>```py'', ''thon:app.py\<newline>print(1)\<newline>'', ''```\<newline>Done.''])
   \<and> fullyProcessed \<lparr>isAbsolute = (\<lambda>p. startsWith p ''/''), joinPath = (\<lambda>d f. d @ ''/'' @ f)\<rparr> ''/w''
        [''Sure, here:\<newline>```py'', ''thon:app.py\<newline>print(1)\<newline>'', ''```\<newline>Done.'']
   \<and> fullyProcessed \<lparr>isAbsolute = (\<lambda>p. startsWith p ''/''), joinPath = (\<lambda>d f. d @ ''/'' @ f)\<rparr> ''/w''
        [''Sure, here:\<newline>``'', ''`python:app'', ''.py\<newline>print(1)\<newline>`'', ''``\<newline>Done.'']
   \<and> pending (sendMessage \<lparr>isAbsolute = (\<lambda>p. startsWith p ''/''), joinPath = (\<lambda>d f. d @ ''/'' @ f)\<rparr>
        ''Cody: '' ''/w''
        ([''Sure, here:\<newline>```py'', ''thon:app.py\<newline>print(1)\<newline>'', ''```\<newline>Done.''],
         None :: string option) [])
     = [\<lparr>filename = ''app.py'', content = ''print(1)'', fullPath = ''/w/app.py''\<rparr>]
   \<and> pending (sendMessage \<lparr>isAbsolute = (\<lambda>p. startsWith p ''/''), joinPath = (\<lambda>d f. d @ ''/'' @ f)\<rparr>
        ''Cody: '' ''/w''
        ([''Sure, here:\<newline>``'', ''`python:app'', ''.py\<newline>print(1)\<newline>`'', ''``\<newline>Done.''],
         None :: string option) [])
     = pending (sendMessage \<lparr>isAbsolute = (\<lambda>p. startsWith p ''/''), joinPath = (\<lambda>d f. d @ ''/'' @ f)\<rparr>
        ''Cody: '' ''/w''
        ([''Sure, here:\<newline>```py'', ''thon:app.py\<newline>print(1)\<newline>'', ''```\<newline>Done.''],
         None :: string option) [])
   \<and> displayText (sendMessage \<lparr>isAbsolute = (\<lambda>p. startsWith p ''/''), joinPath = (\<lambda>d f. d @ ''/'' @ f)\<rparr>
        ''Cody: '' ''/w''
        ([''Sure, here:\<newline>```py'', ''thon:app.py\<newline>print(1)\<newline>'', ''```\<newline>Done.''],
         None :: string option) [])
     = displayText (sendMessage \<lparr>isAbsolute = (\<lambda>p. startsWith p ''/''), joinPath = (\<lambda>d f. d @ ''/'' @ f)\<rparr>
        ''Cody: '' ''/w''
        ([''Sure, here:\<newline>``'', ''`python:app'', ''.py\<newline>print(1)\<newline>`'', ''``\<newline>Done.''],
         None :: string option) [])"
proof -
  let ?P = "\<lparr>isAbsolute = (\<lambda>p. startsWith p ''/''), joinPath = (\<lambda>d f. d @ ''/'' @ f)\<rparr>"
  let ?a = "[''Sure, here:\<newline>```py'', ''thon:app.py\<newline>print(1)\<newline>'', ''```\<newline>Done.'']"
  let ?b = "[''Sure, here:\<newline>``'', ''`python:app'', ''.py\<newline>print(1)\<newline>`'', ''``\<newline>Done.'']"
  have c: "concat ?a = concat ?b" by simp
  have s: "shortHeaders (concat ?a)" by code_simp
  have fa: "fullyProcessed ?P ''/w'' ?a" by code_simp
  have fb: "fullyProcessed ?P ''/w'' ?b" by code_simp
  have v: "[] @ map (blockFile ?P ''/w'') (extractFrom None (concat ?a)) =
             [\<lparr>filename = ''app.py'', content = ''print(1)'', fullPath = ''/w/app.py''\<rparr>]"
    by code_simp
  from chunk_invariance_processed [OF c, of ?P "''Cody: ''" "''/w''" "[]"] s fa fb
  have d: "displayText (sendMessage ?P ''Cody: '' ''/w'' (?a, None :: string option) []) =
        displayText (sendMessage ?P ''Cody: '' ''/w'' (?b, None) [])"
    and p1: "pending (sendMessage ?P ''Cody: '' ''/w'' (?a, None :: string option) []) =
         [] @ map (blockFile ?P ''/w'') (extractFrom None (concat ?a))"
    and p2: "pending (sendMessage ?P ''Cody: '' ''/w'' (?b, None :: string option) []) =
         pending (sendMessage ?P ''Cody: '' ''/w'' (?a, None) [])"
    by blast+
  from c s fa fb p1 [unfolded v] p2 d show ?thesis by (intro conjI)
qed

text \<open>
  Claim C1 as stated fails. The response below has a fence header of 107 characters.
  The header is recognised when it arrives in one chunk. Cut after 101 characters, it
  is missed: after a chunk without fence the scanning buffer is reduced to its last 100
  characters and the first backtick is gone when the newline arrives. Both chunkings
  are fully processed.
\<close>

theorem chunk_invariance_counterexample:
  "concat [''```py:'' @ replicate 100 CHR ''a'' @ [newline], ''x = 1\<newline>```'']
     = concat [''```py:'' @ replicate 95 CHR ''a'', replicate 5 CHR ''a'' @ [newline], ''x = 1\<newline>```'']
   \<and> pending (sendMessage \<lparr>isAbsolute = (\<lambda>p. startsWith p ''/''), joinPath = (\<lambda>d f. d @ ''/'' @ f)\<rparr>
        ''Cody: '' ''/w''
        ([''```py:'' @ replicate 100 CHR ''a'' @ [newline], ''x = 1\<newline>```''], None :: string option) [])
     = [\<lparr>filename = replicate 100 CHR ''a'', content = ''x = 1'',
         fullPath = ''/w/'' @ replicate 100 CHR ''a''\<rparr>]
   \<and> pending (sendMessage \<lparr>isAbsolute = (\<lambda>p. startsWith p ''/''), joinPath = (\<lambda>d f. d @ ''/'' @ f)\<rparr>
        ''Cody: '' ''/w''
        ([''```py:'' @ replicate 95 CHR ''a'', replicate 5 CHR ''a'' @ [newline], ''x = 1\<newline>```''],
         None :: string option) [])
     = []
   \<and> fullyProcessed \<lparr>isAbsolute = (\<lambda>p. startsWith p ''/''), joinPath = (\<lambda>d f. d @ ''/'' @ f)\<rparr> ''/w''
        [''```py:'' @ replicate 100 CHR ''a'' @ [newline], ''x = 1\<newline>```'']
   \<and> fullyProcessed \<lparr>isAbsolute = (\<lambda>p. startsWith p ''/''), joinPath = (\<lambda>d f. d @ ''/'' @ f)\<rparr> ''/w''
        [''```py:'' @ replicate 95 CHR ''a'', replicate 5 CHR ''a'' @ [newline], ''x = 1\<newline>```'']"
  by code_simp

text \<open>
  \<open>process\<close> makes one transition per call: a response that arrives whole, in one chunk,
  opens its block and emits nothing, while the same response cut after the header
  emits the file. The single chunk is not fully processed: the closing fence is still
  in the carry-buffer when the stream ends.
\<close>

lemma one_transition_per_call:
  "pending (sendMessage \<lparr>isAbsolute = (\<lambda>p. startsWith p ''/''), joinPath = (\<lambda>d f. d @ ''/'' @ f)\<rparr>
        ''Cody: '' ''/w'' ([''```py:a.py\<newline>print(1)\<newline>```''], None :: string option) []) = []
   \<and> \<not> fullyProcessed \<lparr>isAbsolute = (\<lambda>p. startsWith p ''/''), joinPath = (\<lambda>d f. d @ ''/'' @ f)\<rparr> ''/w''
        [''```py:a.py\<newline>print(1)\<newline>```'']
   \<and> pending (sendMessage \<lparr>isAbsolute = (\<lambda>p. startsWith p ''/''), joinPath = (\<lambda>d f. d @ ''/'' @ f)\<rparr>
        ''Cody: '' ''/w'' ([''```py:a.py\<newline>'', ''print(1)\<newline>```''], None :: string option) [])
     = [\<lparr>filename = ''a.py'', content = ''print(1)'', fullPath = ''/w/a.py''\<rparr>]"
  by code_simp

section \<open>The scenario of three chunks\<close>

lemma scenario_second_chunk:
  "matchOpenFence ''Sure, here:\<newline>```python:app.py\<newline>print(1)\<newline>'' =
     Some (''```python:app.py\<newline>'', ''python'', ''app.py'')"
  by code_simp

lemma scenario_first_chunk: "matchOpenFence ''Sure, here:\<newline>```py'' = None"
  by code_simp

lemma scenario_indexOf_open:
  "indexOf ''Sure, here:\<newline>```python:app.py\<newline>print(1)\<newline>'' ''```python:app.py\<newline>'' = Some 12"
  by code_simp

lemma scenario_indexOf_close: "indexOf ''print(1)\<newline>```\<newline>Done.'' backticks = Some 9"
  by code_simp

lemma scenario_trim: "trim ''app.py'' = ''app.py''" "trim ''print(1)\<newline>'' = ''print(1)''"
  by code_simp+

text \<open>
  Claim C5, as the code has it. The three chunks are written to the display unchanged,
  fence and code included, after the prompt label and before the closing blank line;
  one file is emitted, \<open>app.py\<close> with the content \<open>print(1)\<close>.
\<close>

theorem scenario_three_chunks:
  "sendMessage P label d
     ([''Sure, here:\<newline>```py'', ''thon:app.py\<newline>print(1)\<newline>'', ''```\<newline>Done.''], None) [] =
   \<lparr>written = [label, ''Sure, here:\<newline>```py'', ''thon:app.py\<newline>print(1)\<newline>'',
               ''```\<newline>Done.'', ''\<newline>\<newline>''],
    pending = [\<lparr>filename = ''app.py'', content = ''print(1)'',
                fullPath = (if isAbsolute P ''app.py'' then ''app.py''
                            else joinPath P d ''app.py'')\<rparr>],
    thrown = None\<rparr>"
proof -
  let ?e0 = "newCodeExtractor d"
  let ?e1 = "?e0\<lparr>buffer := ''Sure, here:\<newline>```py''\<rparr>"
  let ?e2 = "?e0\<lparr>buffer := ''print(1)\<newline>'', inBlock := True, ext_filename := ''app.py''\<rparr>"
  let ?e3 = "?e0\<lparr>buffer := ''\<newline>Done.'', inBlock := False, ext_filename := ''app.py'',
                code := ''print(1)\<newline>''\<rparr>"
  let ?f = "\<lparr>filename = ''app.py'', content = ''print(1)'',
             fullPath = (if isAbsolute P ''app.py'' then ''app.py'' else joinPath P d ''app.py'')\<rparr>"
  have 1: "process P ''Sure, here:\<newline>```py'' (?e0, []) = (?e1, [])"
    using scenario_first_chunk by (simp add: process_def Let_def newCodeExtractor_def)
  have 2: "process P ''thon:app.py\<newline>print(1)\<newline>'' (?e1, []) = (?e2, [])"
    using scenario_second_chunk scenario_indexOf_open scenario_trim
    by (simp add: process_def Let_def newCodeExtractor_def)
  have 3: "process P ''```\<newline>Done.'' (?e2, []) = (?e3, [?f])"
    using scenario_indexOf_close scenario_trim
    by (simp add: process_def Let_def newCodeExtractor_def pendingFile_def)
  have "snd (flush P (?e3, [?f])) = [?f]"
    by (simp add: flush_def Let_def newCodeExtractor_def)
  then show ?thesis
    by (simp add: sendMessage_def Let_def 1 2 3 newline_def)
qed

theorem scenario_three_chunks_witness:
  "sendMessage \<lparr>isAbsolute = (\<lambda>p. startsWith p ''/''), joinPath = (\<lambda>d f. d @ ''/'' @ f)\<rparr>
     ''Cody: '' ''/w''
     ([''Sure, here:\<newline>```py'', ''thon:app.py\<newline>print(1)\<newline>'', ''```\<newline>Done.''],
      None :: string option) [] =
   \<lparr>written = [''Cody: '', ''Sure, here:\<newline>```py'', ''thon:app.py\<newline>print(1)\<newline>'',
               ''```\<newline>Done.'', ''\<newline>\<newline>''],
    pending = [\<lparr>filename = ''app.py'', content = ''print(1)'', fullPath = ''/w/app.py''\<rparr>],
    thrown = None\<rparr>"
  using scenario_three_chunks
    [of "\<lparr>isAbsolute = (\<lambda>p. startsWith p ''/''), joinPath = (\<lambda>d f. d @ ''/'' @ f)\<rparr>"
        "''Cody: ''" "''/w''"]
  by (simp add: startsWith_def)

text \<open>
  Claim C5 as stated fails on the display: the fence and the code are shown, the display
  text is not \<open>Sure, here:\<close>, a newline and \<open>Done.\<close>
\<close>

theorem scenario_display_counterexample:
  "displayText (sendMessage \<lparr>isAbsolute = (\<lambda>p. startsWith p ''/''), joinPath = (\<lambda>d f. d @ ''/'' @ f)\<rparr>
     [] ''/w''
     ([''Sure, here:\<newline>```py'', ''thon:app.py\<newline>print(1)\<newline>'', ''```\<newline>Done.''],
      None :: string option) [])
     = ''Sure, here:\<newline>```python:app.py\<newline>print(1)\<newline>```\<newline>Done.\<newline>\<newline>''
   \<and> displayText (sendMessage \<lparr>isAbsolute = (\<lambda>p. startsWith p ''/''), joinPath = (\<lambda>d f. d @ ''/'' @ f)\<rparr>
     [] ''/w''
     ([''Sure, here:\<newline>```py'', ''thon:app.py\<newline>print(1)\<newline>'', ''```\<newline>Done.''],
      None :: string option) [])
     \<noteq> ''Sure, here:\<newline>Done.''
   \<and> displayText (sendMessage \<lparr>isAbsolute = (\<lambda>p. startsWith p ''/''), joinPath = (\<lambda>d f. d @ ''/'' @ f)\<rparr>
     [] ''/w''
     ([''Sure, here:\<newline>```py'', ''thon:app.py\<newline>print(1)\<newline>'', ''```\<newline>Done.''],
      None :: string option) [])
     \<noteq> ''Sure, here:\<newline>Done.\<newline>\<newline>''"
  by (simp add: displayText_clean newline_def)

section \<open>Properties of the agent\<close>

lemma fold_max_ge: "(a::nat) \<le> fold max xs a"
  by (induction xs arbitrary: a) (auto intro: order_trans [OF max.cobounded2])

lemma fold_max_mem: "x \<in> set xs \<Longrightarrow> (x::nat) \<le> fold max xs a"
proof (induction xs arbitrary: a)
  case Nil
  then show ?case by simp
next
  case (Cons y ys)
  show ?case
  proof (cases "x = y")
    case True
    have "y \<le> max y a" by simp
    also have "\<dots> \<le> fold max ys (max y a)" by (rule fold_max_ge)
    finally show ?thesis using True by simp
  next
    case False
    with Cons show ?thesis by simp
  qed
qed

text \<open>The address of a new object is the address of no object of the history.\<close>

lemma freshAddr_fresh: "x \<in> set h \<Longrightarrow> fst x \<noteq> freshAddr h"
proof -
  assume "x \<in> set h"
  then have "fst x \<in> set (map fst h)" by simp
  then have "fst x \<le> fold max (map fst h) 0" by (rule fold_max_mem)
  then show ?thesis by (simp add: freshAddr_def)
qed

lemma indexOfObj_append_fresh:
  "(\<And>x. x \<in> set h \<Longrightarrow> fst x \<noteq> r) \<Longrightarrow> indexOfObj (h @ [(r, m)]) (r, m) = Some (length h)"
  by (induction h) auto

lemma indexOfObj_pushed:
  "indexOfObj (h @ [(freshAddr h, m)]) (freshAddr h, m) = Some (length h)"
  by (rule indexOfObj_append_fresh) (rule freshAddr_fresh)

text \<open>
  Claim C3. When the exchange fails, the history afterwards is the history before the
  user message was appended, and the error reaches the caller: for \<open>send\<close> when the
  client's \<open>chat\<close> throws, for \<open>sendStream\<close> when the client's stream ends with an error,
  whatever chunks it delivered before. The history is compared as a list of objects,
  addresses included.
\<close>

theorem failed_turn_rolls_back:
  "(cchat (map snd (conversationHistory a) @ [\<lparr>role = User, msg_content = m\<rparr>]) = Inl err \<longrightarrow>
      conversationHistory (fst (send cchat m a)) = conversationHistory a \<and>
      snd (send cchat m a) = Inl err) \<and>
   (snd (cstream (map snd (conversationHistory a) @ [\<lparr>role = User, msg_content = m\<rparr>])) = Some err' \<longrightarrow>
      conversationHistory (fst (sendStream cstream m a)) = conversationHistory a \<and>
      snd (snd (sendStream cstream m a)) = Some err')"
  by (simp add: send_def sendStream_def Let_def indexOfObj_pushed)

theorem failed_turn_rolls_back_witness:
  "((\<lambda>ms. if length ms = 3 then Inl ''API Error'' else Inr ''ok'')
      (map snd (conversationHistory
         \<lparr>conversationHistory =
            [(0, \<lparr>role = System, msg_content = ''prompt''\<rparr>),
             (1, \<lparr>role = User, msg_content = ''hi''\<rparr>)],
          pendingUserMessage = None\<rparr>) @ [\<lparr>role = User, msg_content = ''hi''\<rparr>])
      = (Inl ''API Error'' :: string + string)
    \<and> conversationHistory (fst (send (\<lambda>ms. if length ms = 3 then Inl ''API Error'' else Inr ''ok'') ''hi''
         \<lparr>conversationHistory =
            [(0, \<lparr>role = System, msg_content = ''prompt''\<rparr>),
             (1, \<lparr>role = User, msg_content = ''hi''\<rparr>)],
          pendingUserMessage = None\<rparr>))
      = [(0, \<lparr>role = System, msg_content = ''prompt''\<rparr>),
         (1, \<lparr>role = User, msg_content = ''hi''\<rparr>)])
   \<and> (snd ((\<lambda>ms. ([''par'', ''tial''], Some ''reset''))
      (map snd (conversationHistory
         \<lparr>conversationHistory =
            [(0, \<lparr>role = System, msg_content = ''prompt''\<rparr>),
             (1, \<lparr>role = User, msg_content = ''hi''\<rparr>)],
          pendingUserMessage = None\<rparr>) @ [\<lparr>role = User, msg_content = ''hi''\<rparr>]))
      = Some ''reset''
    \<and> conversationHistory (fst (sendStream (\<lambda>ms. ([''par'', ''tial''], Some ''reset'')) ''hi''
         \<lparr>conversationHistory =
            [(0, \<lparr>role = System, msg_content = ''prompt''\<rparr>),
             (1, \<lparr>role = User, msg_content = ''hi''\<rparr>)],
          pendingUserMessage = None\<rparr>))
      = [(0, \<lparr>role = System, msg_content = ''prompt''\<rparr>),
         (1, \<lparr>role = User, msg_content = ''hi''\<rparr>)])"
  using failed_turn_rolls_back
    [of "\<lambda>ms. if length ms = 3 then Inl ''API Error'' else Inr ''ok''"
        "\<lparr>conversationHistory =
            [(0, \<lparr>role = System, msg_content = ''prompt''\<rparr>),
             (1, \<lparr>role = User, msg_content = ''hi''\<rparr>)],
          pendingUserMessage = None\<rparr>"
        "''hi''" "''API Error''"
        "\<lambda>ms. ([''par'', ''tial''], Some ''reset'')" "''reset''"]
  by simp

text \<open>
  Claim C9. When the stream ends cleanly and the concatenated response is empty, no
  assistant message is appended and the user message stays: the history is the old one
  followed by the new user message.
\<close>

theorem empty_reply_keeps_user_turn:
  assumes "snd (cstream (map snd (conversationHistory a) @ [\<lparr>role = User, msg_content = m\<rparr>])) = None"
    and "concat (fst (cstream (map snd (conversationHistory a) @ [\<lparr>role = User, msg_content = m\<rparr>]))) = []"
  shows "conversationHistory (fst (sendStream cstream m a)) =
           conversationHistory a @
           [(freshAddr (conversationHistory a), \<lparr>role = User, msg_content = m\<rparr>)]"
  using assms by (simp add: sendStream_def Let_def)

theorem empty_reply_keeps_user_turn_witness:
  "snd ((\<lambda>ms. ([], None :: string option))
      (map snd (conversationHistory
         \<lparr>conversationHistory = [(0, \<lparr>role = System, msg_content = ''prompt''\<rparr>)],
          pendingUserMessage = None\<rparr>) @ [\<lparr>role = User, msg_content = ''hi''\<rparr>])) = None
   \<and> concat (fst ((\<lambda>ms. ([], None :: string option))
      (map snd (conversationHistory
         \<lparr>conversationHistory = [(0, \<lparr>role = System, msg_content = ''prompt''\<rparr>)],
          pendingUserMessage = None\<rparr>) @ [\<lparr>role = User, msg_content = ''hi''\<rparr>]))) = []
   \<and> conversationHistory (fst (sendStream (\<lambda>ms. ([], None :: string option)) ''hi''
         \<lparr>conversationHistory = [(0, \<lparr>role = System, msg_content = ''prompt''\<rparr>)],
          pendingUserMessage = None\<rparr>))
      = [(0, \<lparr>role = System, msg_content = ''prompt''\<rparr>),
         (1, \<lparr>role = User, msg_content = ''hi''\<rparr>)]"
  using empty_reply_keeps_user_turn
    [of "\<lambda>ms. ([], None :: string option)"
        "\<lparr>conversationHistory = [(0, \<lparr>role = System, msg_content = ''prompt''\<rparr>)],
          pendingUserMessage = None\<rparr>" "''hi''"]
  by (simp add: freshAddr_def)

section \<open>Properties of the stream decoder\<close>

lemma split_not_Nil: "split sep s \<noteq> []"
  by (induction s) (auto split: list.splits)

lemma split_no_sep: "sep \<notin> set s \<Longrightarrow> split sep s = [s]"
  by (induction s) auto

lemma split_sep_append: "split sep (xs @ sep # ys) = split sep xs @ split sep ys"
proof (induction xs)
  case Nil
  then show ?case by simp
next
  case (Cons c cs)
  obtain w ws where "split sep cs = w # ws"
    using split_not_Nil [of sep cs] by (cases "split sep cs") auto
  with Cons show ?case by simp
qed

lemma last_split_no_sep: "sep \<notin> set (last (split sep s))"
proof (induction s)
  case Nil
  then show ?case by simp
next
  case (Cons c cs)
  obtain w ws where ws: "split sep cs = w # ws"
    using split_not_Nil [of sep cs] by (cases "split sep cs") auto
  with Cons show ?case by (cases ws) auto
qed

lemma split_append:
  "split sep (xs @ ys) = butlast (split sep xs) @ split sep (last (split sep xs) @ ys)"
proof (induction xs)
  case Nil
  then show ?case by simp
next
  case (Cons c cs)
  obtain w ws where ws: "split sep cs = w # ws"
    using split_not_Nil [of sep cs] by (cases "split sep cs") auto
  show ?case
  proof (cases "c = sep")
    case True
    with Cons ws show ?thesis by simp
  next
    case False
    show ?thesis
    proof (cases ws)
      case Nil
      with Cons ws False show ?thesis by simp
    next
      case (Cons v vs)
      with Cons.IH ws False show ?thesis by simp
    qed
  qed
qed

lemma forLines_append:
  "forLines parse (as @ bs) =
     (if snd (forLines parse as) then forLines parse as
      else (fst (forLines parse as) @ fst (forLines parse bs), snd (forLines parse bs)))"
  by (induction as) (auto simp: Let_def split: tryResult.splits option.splits)

text \<open>The line loop skips a data line whose payload makes the \<open>try\<close> block throw.\<close>

lemma forLines_skip:
  "parse d = Thrown \<Longrightarrow> d \<noteq> ''[DONE]'' \<Longrightarrow>
   forLines parse ((''data: '' @ d) # rest) = forLines parse rest"
  by (simp add: startsWith_def)

lemma forLines_done: "forLines parse (''data: [DONE]'' # rest) = ([], True)"
  by (simp add: startsWith_def)

text \<open>
  The decoder reads the text, not the fragments: what it yields is what the line loop
  yields on the complete lines of the whole text.
\<close>

lemma readLoop_text:
  "newline \<notin> set buf \<Longrightarrow>
   readLoop parse buf fragments None =
     (fst (forLines parse (butlast (split newline (buf @ concat fragments)))), None)"
proof (induction fragments arbitrary: buf)
  case Nil
  then show ?case by (simp add: split_no_sep)
next
  case (Cons v vs)
  let ?lines = "split newline (buf @ v)"
  let ?rest = "split newline (last ?lines @ concat vs)"
  have "split newline ((buf @ v) @ concat vs) = butlast ?lines @ ?rest"
    by (rule split_append)
  then have all: "butlast (split newline (buf @ concat (v # vs))) = butlast ?lines @ butlast ?rest"
    by (simp add: butlast_append split_not_Nil)
  have ih: "readLoop parse (last ?lines) vs None = (fst (forLines parse (butlast ?rest)), None)"
    by (rule Cons.IH) (rule last_split_no_sep)
  show ?case
    unfolding all forLines_append by (simp add: Let_def ih)
qed

text \<open>
  Claim C7. A data line whose payload fails to parse is skipped: the line loop goes on
  with the following lines, and taking the whole line out of the response text changes
  nothing in the decoded stream, however the text is cut into fragments. No payload makes
  the decoder raise. A data line with the payload \<open>[DONE]\<close> ends the decoding.
\<close>

theorem malformed_frame_skipped:
  "(parse d = Thrown \<and> d \<noteq> ''[DONE]'' \<longrightarrow>
      forLines parse ((''data: '' @ d) # rest) = forLines parse rest) \<and>
   (parse d = Thrown \<and> d \<noteq> ''[DONE]'' \<and> newline \<notin> set d \<and>
    (before = [] \<or> last before = newline) \<and>
    concat fragments = before @ ''data: '' @ d @ [newline] @ after \<and>
    concat fragments' = before @ after \<longrightarrow>
      chatStream parse \<lparr>ok = True, status = st, bodyText = bt, body = Some (fragments, None)\<rparr> =
      chatStream parse \<lparr>ok = True, status = st, bodyText = bt, body = Some (fragments', None)\<rparr>) \<and>
   snd (chatStream parse \<lparr>ok = True, status = st, bodyText = bt, body = Some (fragments, None)\<rparr>) = None \<and>
   forLines parse (''data: [DONE]'' # rest) = ([], True)"
proof (intro conjI impI)
  assume "parse d = Thrown \<and> d \<noteq> ''[DONE]''"
  then show "forLines parse ((''data: '' @ d) # rest) = forLines parse rest"
    by (simp add: forLines_skip)
next
  show "snd (chatStream parse \<lparr>ok = True, status = st, bodyText = bt, body = Some (fragments, None)\<rparr>) = None"
    by (simp add: chatStream_def readLoop_text)
next
  show "forLines parse (''data: [DONE]'' # rest) = ([], True)"
    by (rule forLines_done)
next
  let ?l = "''data: '' @ d"
  assume a: "parse d = Thrown \<and> d \<noteq> ''[DONE]'' \<and> newline \<notin> set d \<and>
    (before = [] \<or> last before = newline) \<and>
    concat fragments = before @ ''data: '' @ d @ [newline] @ after \<and>
    concat fragments' = before @ after"
  then have skip: "forLines parse (?l # ls) = forLines parse ls" for ls
    by (simp add: forLines_skip)
  have l: "split newline ?l = [?l]"
    using a by (intro split_no_sep) (simp add: newline_def)
  have "\<exists>as bs. butlast (split newline (concat fragments)) = as @ ?l # bs \<and>
               butlast (split newline (concat fragments')) = as @ bs"
  proof (cases "before = []")
    case True
    have "split newline (concat fragments) = ?l # split newline after"
      using a True split_sep_append [of newline ?l after] l by simp
    then have "butlast (split newline (concat fragments)) = [] @ ?l # butlast (split newline after)"
      by (simp add: split_not_Nil)
    moreover have "butlast (split newline (concat fragments')) = [] @ butlast (split newline after)"
      using a True by simp
    ultimately show ?thesis by blast
  next
    case False
    with a obtain pre where pre: "before = pre @ [newline]"
      by (metis append_butlast_last_id)
    have "split newline (concat fragments) = split newline pre @ ?l # split newline after"
      using a pre l split_sep_append [of newline pre "?l @ newline # after"]
        split_sep_append [of newline ?l after] by simp
    then have "butlast (split newline (concat fragments)) =
                 split newline pre @ ?l # butlast (split newline after)"
      by (simp add: butlast_append split_not_Nil)
    moreover have "butlast (split newline (concat fragments')) =
                 split newline pre @ butlast (split newline after)"
      using a pre split_sep_append [of newline pre after]
      by (simp add: butlast_append split_not_Nil)
    ultimately show ?thesis by blast
  qed
  then obtain as bs where
    "butlast (split newline (concat fragments)) = as @ ?l # bs"
    "butlast (split newline (concat fragments')) = as @ bs" by blast
  then have "forLines parse (butlast (split newline (concat fragments))) =
             forLines parse (butlast (split newline (concat fragments')))"
    by (simp only: forLines_append [of parse as] skip)
  then show "chatStream parse \<lparr>ok = True, status = st, bodyText = bt, body = Some (fragments, None)\<rparr> =
      chatStream parse \<lparr>ok = True, status = st, bodyText = bt, body = Some (fragments', None)\<rparr>"
    by (simp add: chatStream_def readLoop_text)
qed

theorem malformed_frame_skipped_witness:
  "(\<lambda>d. if d = ''{ok}'' then Content (Some ''x'') else Thrown) ''bad'' = Thrown
   \<and> ''bad'' \<noteq> ''[DONE]''
   \<and> forLines (\<lambda>d. if d = ''{ok}'' then Content (Some ''x'') else Thrown)
        [''data: bad'', ''data: {ok}''] = ([''x''], False)
   \<and> concat [''data: {ok}'' @ [newline] @ ''da'', ''ta: bad'' @ [newline] @ ''data: {ok}'' @ [newline]]
       = (''data: {ok}'' @ [newline]) @ ''data: '' @ ''bad'' @ [newline] @ (''data: {ok}'' @ [newline])
   \<and> chatStream (\<lambda>d. if d = ''{ok}'' then Content (Some ''x'') else Thrown)
        \<lparr>ok = True, status = 200, bodyText = [],
         body = Some ([''data: {ok}'' @ [newline] @ ''da'',
                       ''ta: bad'' @ [newline] @ ''data: {ok}'' @ [newline]], None)\<rparr>
       = chatStream (\<lambda>d. if d = ''{ok}'' then Content (Some ''x'') else Thrown)
        \<lparr>ok = True, status = 200, bodyText = [],
         body = Some ([''data: {ok}'' @ [newline] @ ''data: {ok}'' @ [newline]], None)\<rparr>
   \<and> chatStream (\<lambda>d. if d = ''{ok}'' then Content (Some ''x'') else Thrown)
        \<lparr>ok = True, status = 200, bodyText = [],
         body = Some ([''data: {ok}'' @ [newline] @ ''da'',
                       ''ta: bad'' @ [newline] @ ''data: {ok}'' @ [newline]], None)\<rparr>
       = ([''x'', ''x''], None)"
  using malformed_frame_skipped
    [where parse = "\<lambda>d. if d = ''{ok}'' then Content (Some ''x'') else Thrown"
       and d = "''bad''" and rest = "[''data: {ok}'']"
       and before = "''data: {ok}'' @ [newline]" and after = "''data: {ok}'' @ [newline]"
       and fragments = "[''data: {ok}'' @ [newline] @ ''da'',
                         ''ta: bad'' @ [newline] @ ''data: {ok}'' @ [newline]]"
       and ?fragments' = "[''data: {ok}'' @ [newline] @ ''data: {ok}'' @ [newline]]"
       and st = 200 and bt = "[]"]
  by (simp add: chatStream_def startsWith_def newline_def)

section \<open>Properties of \<open>runCommand\<close>\<close>

lemma resolve_settles: "settled (resolve r s) \<noteq> Pending"
  by (simp add: resolve_def split: promise.splits)

lemma resolve_pending: "settled s = Pending \<Longrightarrow> settled (resolve r s) = Resolved r"
  by (simp add: resolve_def)

lemma resolve_keeps: "settled s \<noteq> Pending \<Longrightarrow> resolve r s = s"
  by (simp add: resolve_def split: promise.splits)

lemma resolve_not_rejected:
  "settled s \<noteq> Rejected msg \<Longrightarrow> settled (resolve r s) \<noteq> Rejected msg"
  by (auto simp: resolve_def split: promise.splits)

lemma onEvent_keeps: "settled s \<noteq> Pending \<Longrightarrow> settled (onEvent ev s) = settled s"
  by (cases ev) (simp_all add: resolve_keeps)

lemma fold_onEvent_keeps:
  "settled s \<noteq> Pending \<Longrightarrow> settled (fold onEvent evs s) = settled s"
  by (induction evs arbitrary: s) (simp_all add: onEvent_keeps)

lemma onEvent_data_pending:
  "isData ev \<Longrightarrow> settled (onEvent ev s) = settled s"
  by (cases ev) (simp_all add: isData_def)

lemma fold_onEvent_data:
  "list_all isData evs \<Longrightarrow> settled (fold onEvent evs s) = settled s"
  by (induction evs arbitrary: s) (simp_all add: onEvent_data_pending)

lemma onEvent_not_rejected:
  "settled s \<noteq> Rejected msg \<Longrightarrow> settled (onEvent ev s) \<noteq> Rejected msg"
  by (cases ev) (simp_all add: resolve_not_rejected)

lemma fold_onEvent_not_rejected:
  "settled s \<noteq> Rejected msg \<Longrightarrow> settled (fold onEvent evs s) \<noteq> Rejected msg"
  by (induction evs arbitrary: s) (simp_all add: onEvent_not_rejected)

lemma onEvent_settling:
  "\<not> isData ev \<Longrightarrow> settled (onEvent ev s) \<noteq> Pending"
  by (cases ev) (simp_all add: isData_def resolve_settles)

text \<open>After the timer the promise is resolved, whatever the child process did.\<close>

lemma onTimeout_resolved: "\<exists>r. settled (onTimeout (fold onEvent evs
    \<lparr>stdout = [], stderr = [], settled = Pending\<rparr>)) = Resolved r"
proof -
  let ?s = "onTimeout (fold onEvent evs \<lparr>stdout = [], stderr = [], settled = Pending\<rparr>)"
  have "settled ?s \<noteq> Pending" by (simp add: onTimeout_def resolve_settles)
  moreover have "settled ?s \<noteq> Rejected m" for m
    by (simp add: onTimeout_def resolve_not_rejected fold_onEvent_not_rejected)
  ultimately show ?thesis by (cases "settled ?s") auto
qed

lemma onTimeout_keeps: "settled s \<noteq> Pending \<Longrightarrow> settled (onTimeout s) = settled s"
  by (simp add: onTimeout_def resolve_keeps)

lemma fold_first_settling:
  assumes "list_all isData pre" and "\<not> isData ev"
  shows "settled (onTimeout (fold onEvent (pre @ ev # post) s)) =
         settled (onEvent ev (fold onEvent pre s))"
proof -
  have "settled (onEvent ev (fold onEvent pre s)) \<noteq> Pending"
    using assms(2) by (rule onEvent_settling)
  then show ?thesis by (simp add: fold_onEvent_keeps onTimeout_keeps)
qed

lemma fold_initial_pending:
  "list_all isData pre \<Longrightarrow>
   settled (fold onEvent pre \<lparr>stdout = [], stderr = [], settled = Pending\<rparr>) = Pending"
  by (simp add: fold_onEvent_data)

text \<open>
  Claim C8. For every command, argument list and working directory \<open>runCommand\<close> resolves
  to a result record and never rejects. When \<open>spawn\<close> throws, when the child reports an
  error first and when the timer fires before the child has closed, the record has
  \<open>success = false\<close> and an error message; when the child closes first, \<open>success\<close> is true
  exactly when the exit code is 0.
\<close>

theorem runCommand_always_resolves:
  "(\<exists>r. runCommand spawn command args wd = Resolved r) \<and>
   runCommand spawn command args wd \<noteq> Rejected msg \<and>
   (spawn command args wd = SpawnThrows err \<longrightarrow>
      runCommand spawn command args wd =
        Resolved \<lparr>success = False, tool_output = [],
                  error = Some (''Failed to run command: '' @ err)\<rparr>) \<and>
   (spawn command args wd = Spawned (pre @ Close exitCode # post) \<and> list_all isData pre \<longrightarrow>
      (\<exists>r. runCommand spawn command args wd = Resolved r \<and>
           (success r \<longleftrightarrow> exitCode = Some 0))) \<and>
   (spawn command args wd = Spawned (pre @ ProcError m # post) \<and> list_all isData pre \<longrightarrow>
      runCommand spawn command args wd =
        Resolved \<lparr>success = False, tool_output = [],
                  error = Some (''Failed to run command: '' @ m)\<rparr>) \<and>
   (spawn command args wd = Spawned evs \<and> list_all isData evs \<longrightarrow>
      (\<exists>r. runCommand spawn command args wd = Resolved r \<and> \<not> success r \<and>
           error r = Some ''Command timed out (30s)''))"
proof (intro conjI impI)
  show res: "\<exists>r. runCommand spawn command args wd = Resolved r"
    using onTimeout_resolved by (cases "spawn command args wd") (simp_all add: runCommand_def)
  then show "runCommand spawn command args wd \<noteq> Rejected msg" by auto
next
  assume "spawn command args wd = SpawnThrows err"
  then show "runCommand spawn command args wd =
        Resolved \<lparr>success = False, tool_output = [],
                  error = Some (''Failed to run command: '' @ err)\<rparr>"
    by (simp add: runCommand_def)
next
  let ?s = "fold onEvent pre \<lparr>stdout = [], stderr = [], settled = Pending\<rparr>"
  assume "spawn command args wd = Spawned (pre @ Close exitCode # post) \<and> list_all isData pre"
  then have sp: "spawn command args wd = Spawned (pre @ Close exitCode # post)"
    and d: "list_all isData pre" by simp_all
  have "settled (onTimeout (fold onEvent (pre @ Close exitCode # post)
          \<lparr>stdout = [], stderr = [], settled = Pending\<rparr>)) = settled (onEvent (Close exitCode) ?s)"
    using d by (rule fold_first_settling) (simp add: isData_def)
  also have "\<dots> = Resolved \<lparr>success = (exitCode = Some 0),
              tool_output = (if stdout ?s \<noteq> [] then stdout ?s else ''(no output)''),
              error = (if stderr ?s \<noteq> [] then Some (stderr ?s) else None)\<rparr>"
    using fold_initial_pending [OF d] by (simp add: resolve_pending)
  finally show "\<exists>r. runCommand spawn command args wd = Resolved r \<and>
           (success r \<longleftrightarrow> exitCode = Some 0)"
    using sp by (simp add: runCommand_def)
next
  let ?s = "fold onEvent pre \<lparr>stdout = [], stderr = [], settled = Pending\<rparr>"
  assume "spawn command args wd = Spawned (pre @ ProcError m # post) \<and> list_all isData pre"
  then have sp: "spawn command args wd = Spawned (pre @ ProcError m # post)"
    and d: "list_all isData pre" by simp_all
  have "settled (onTimeout (fold onEvent (pre @ ProcError m # post)
          \<lparr>stdout = [], stderr = [], settled = Pending\<rparr>)) = settled (onEvent (ProcError m) ?s)"
    using d by (rule fold_first_settling) (simp add: isData_def)
  also have "\<dots> = Resolved \<lparr>success = False, tool_output = [],
              error = Some (''Failed to run command: '' @ m)\<rparr>"
    using fold_initial_pending [OF d] by (simp add: resolve_pending)
  finally show "runCommand spawn command args wd =
        Resolved \<lparr>success = False, tool_output = [],
                  error = Some (''Failed to run command: '' @ m)\<rparr>"
    using sp by (simp add: runCommand_def)
next
  let ?s = "fold onEvent evs \<lparr>stdout = [], stderr = [], settled = Pending\<rparr>"
  assume "spawn command args wd = Spawned evs \<and> list_all isData evs"
  then have sp: "spawn command args wd = Spawned evs" and d: "list_all isData evs" by simp_all
  have "settled (onTimeout ?s) = Resolved \<lparr>success = False, tool_output = stdout ?s,
              error = Some ''Command timed out (30s)''\<rparr>"
    using fold_initial_pending [OF d] by (simp add: onTimeout_def resolve_pending)
  then show "\<exists>r. runCommand spawn command args wd = Resolved r \<and> \<not> success r \<and>
           error r = Some ''Command timed out (30s)''"
    using sp by (simp add: runCommand_def)
qed

theorem runCommand_always_resolves_witness:
  "(\<lambda>c a d. Spawned [StdoutData ''a.txt'', StderrData ''warn'', Close (Some 1)]) ''ls'' [''-l''] ''/w''
     = Spawned ([StdoutData ''a.txt'', StderrData ''warn''] @ Close (Some 1) # [])
   \<and> list_all isData [StdoutData ''a.txt'', StderrData ''warn'']
   \<and> runCommand (\<lambda>c a d. Spawned [StdoutData ''a.txt'', StderrData ''warn'', Close (Some 1)])
        ''ls'' [''-l''] ''/w''
     = Resolved \<lparr>success = False, tool_output = ''a.txt'', error = Some ''warn''\<rparr>
   \<and> (\<exists>r. runCommand (\<lambda>c a d. Spawned [StdoutData ''a.txt'', StderrData ''warn'', Close (Some 1)])
        ''ls'' [''-l''] ''/w'' = Resolved r \<and> (success r \<longleftrightarrow> Some (1::int) = Some 0))
   \<and> list_all isData [StdoutData ''wait'']
   \<and> runCommand (\<lambda>c a d. Spawned [StdoutData ''wait'']) ''sleep'' [''60''] ''/w''
     = Resolved \<lparr>success = False, tool_output = ''wait'', error = Some ''Command timed out (30s)''\<rparr>
   \<and> (\<exists>r. runCommand (\<lambda>c a d. Spawned [StdoutData ''wait'']) ''sleep'' [''60''] ''/w'' = Resolved r
          \<and> \<not> success r \<and> error r = Some ''Command timed out (30s)'')"
  using runCommand_always_resolves
    [where spawn = "\<lambda>c a d. Spawned [StdoutData ''a.txt'', StderrData ''warn'', Close (Some 1)]"
       and command = "''ls''" and args = "[''-l'']" and wd = "''/w''"
       and pre = "[StdoutData ''a.txt'', StderrData ''warn'']" and exitCode = "Some 1" and post = "[]"]
    runCommand_always_resolves
    [where spawn = "\<lambda>c a d. Spawned [StdoutData ''wait'']"
       and command = "''sleep''" and args = "[''60'']" and wd = "''/w''"
       and evs = "[StdoutData ''wait'']"]
  by (simp add: isData_def runCommand_def resolve_def onTimeout_def)

section \<open>Properties of \<open>resolveCommand\<close>\<close>

lemma join_Cons_Cons: "join sep ((c # w) # ws) = c # join sep (w # ws)"
  by (cases ws) simp_all

lemma join_split: "join [sep] (split sep s) = s"
proof (induction s)
  case Nil
  then show ?case by simp
next
  case (Cons c cs)
  obtain w ws where ws: "split sep cs = w # ws"
    using split_not_Nil [of sep cs] by (cases "split sep cs") auto
  show ?case
  proof (cases "c = sep")
    case True
    with Cons ws show ?thesis by simp
  next
    case False
    with Cons ws show ?thesis by (simp add: join_Cons_Cons)
  qed
qed

text \<open>
  The first part of \<open>split\<close> is the input up to the first separator, and joining the parts
  again after replacing the first one keeps the rest of the input.
\<close>

lemma split_first:
  "split sep s = w # ws \<Longrightarrow>
   w = takeWhile (\<lambda>c. c \<noteq> sep) s \<and> join [sep] (x # ws) = x @ drop (length w) s"
proof (induction s arbitrary: w ws)
  case Nil
  then show ?case by auto
next
  case (Cons c cs)
  obtain v vs where vs: "split sep cs = v # vs"
    using split_not_Nil [of sep cs] by (cases "split sep cs") auto
  show ?case
  proof (cases "c = sep")
    case True
    with Cons.prems vs have w: "w = []" and ws: "ws = v # vs" by simp_all
    have "join [sep] (v # vs) = cs" using join_split [of sep cs] vs by simp
    with w ws True show ?thesis by simp
  next
    case False
    with Cons.prems vs have w: "w = c # v" and ws: "ws = vs" by simp_all
    from Cons.IH [OF vs] have "v = takeWhile (\<lambda>c. c \<noteq> sep) cs"
      and "join [sep] (x # vs) = x @ drop (length v) cs" by simp_all
    with w ws False show ?thesis by simp
  qed
qed

text \<open>
  On an input whose first token ends at a space or at the end, \<open>resolveCommand\<close> does what
  is expected of it with the value of \<open>commandAliases[cmd]\<close>; for every token other than
  \<open>constructor\<close> and \<open>__proto__\<close> that value is the entry of the alias table.
\<close>

lemma resolveCommand_first_space_token:
  "resolveCommand input =
     (case aliasProperty (toLowerCase (takeWhile (\<lambda>c. c \<noteq> CHR '' '') input)) of
        Some full \<Rightarrow> full @ drop (length (takeWhile (\<lambda>c. c \<noteq> CHR '' '') input)) input
      | None \<Rightarrow> input) \<and>
   (cmd \<noteq> ''constructor'' \<and> cmd \<noteq> ''__proto__'' \<longrightarrow>
      aliasProperty cmd = map_of commandAliases cmd)"
proof
  obtain w ws where ws: "split CHR '' '' input = w # ws"
    using split_not_Nil [of "CHR '' ''" input] by (cases "split CHR '' '' input") auto
  have "w = takeWhile (\<lambda>c. c \<noteq> CHR '' '') input"
    and "join '' '' (x # ws) = x @ drop (length w) input" for x
    using split_first [OF ws] by simp_all
  then show "resolveCommand input =
     (case aliasProperty (toLowerCase (takeWhile (\<lambda>c. c \<noteq> CHR '' '') input)) of
        Some full \<Rightarrow> full @ drop (length (takeWhile (\<lambda>c. c \<noteq> CHR '' '') input)) input
      | None \<Rightarrow> input)"
    by (simp add: resolveCommand_def ws split: option.splits)
next
  show "cmd \<noteq> ''constructor'' \<and> cmd \<noteq> ''__proto__'' \<longrightarrow>
      aliasProperty cmd = map_of commandAliases cmd"
    by (simp add: aliasProperty_def split: option.splits)
qed

text \<open>
  Claim C10. \<open>resolveCommand\<close> matches the first white-space-delimited token of the input,
  in lower case, against the alias table; on a match the token is replaced by the full
  command and the rest of the input is kept, otherwise the input comes back unchanged.
  The code fails this at two inputs. In \<open>/q\<close>, tab, \<open>a\<close> the first token is the alias
  \<open>/q\<close>, but \<open>split(" ")\<close> cuts at spaces only and the input comes back unchanged. In
  \<open>constructor x\<close> the first token is not in the table, but \<open>commandAliases[cmd]\<close> finds the
  inherited property and the token is replaced by the text of a function.
\<close>

theorem resolveCommand_tab_and_inherited:
  "firstWhitespaceToken [CHR ''/'', CHR ''q'', CHR 0x09, CHR ''a''] = ''/q''
   \<and> map_of commandAliases (toLowerCase ''/q'') = Some ''/quit''
   \<and> resolveCommand [CHR ''/'', CHR ''q'', CHR 0x09, CHR ''a''] = [CHR ''/'', CHR ''q'', CHR 0x09, CHR ''a'']
   \<and> resolveCommand ''/q a'' = ''/quit a''
   \<and> firstWhitespaceToken ''constructor x'' = ''constructor''
   \<and> map_of commandAliases (toLowerCase ''constructor'') = None
   \<and> resolveCommand ''constructor x'' = ''function Object() { [native code] } x''"
  by code_simp

end
